theory Spec2Isabelle
  imports
    Complex_Main
    "HOL-Library.AList"
    "HOL-Library.List_Lexorder"
    "HOL-Library.Char_ord"
    "HOL-Library.Product_Lexorder"
    "HOL-Library.Sublist"
begin

section \<open>Values, operations and the CRDT base class (crdt/base.py)\<close>

text \<open>
  Python values that travel through the CRDTs are JSON-shaped. A dictionary is an
  association list in insertion order (Python dictionaries iterate in insertion
  order); \<open>AList.update\<close> is the assignment \<^verbatim>\<open>d[k] = v\<close>: an existing key keeps its
  position, a new key is appended. Timestamps are Python floats; they are modelled
  as the real numbers they stand for, and comparisons of floats are exact. The
  token bucket of the rate limiter computes with floats; there every result is
  rounded as the floating-point unit rounds it.
\<close>

datatype jval =
    JNull
  | JBool bool
  | JNum real
  | JStr string
  | JList "jval list"
  | JDict "(string \<times> jval) list"

datatype error = ValueError | KeyError | TypeError | AttributeError | ZeroDivisionError

type_synonym path = "string list"

text \<open>\<^verbatim>\<open>isinstance(value, dict)\<close>\<close>

fun is_dict :: "jval \<Rightarrow> bool" where
  "is_dict (JDict d) = True"
| "is_dict v = False"

text \<open>The frozen dataclass \<^verbatim>\<open>Operation\<close>, at the types its fields declare.\<close>

record operation =
  op_id :: string
  op_timestamp :: real
  op_node_id :: string
  op_path :: path
  op_type :: string
  op_value :: jval

text \<open>
  \<^verbatim>\<open>VersionVector.update\<close>: \<^verbatim>\<open>timestamps[n] = max(timestamps.get(n, 0), t)\<close>.
\<close>

definition vv_update :: "(string \<times> real) list \<Rightarrow> string \<Rightarrow> real \<Rightarrow> (string \<times> real) list" where
  "vv_update vv n t =
     AList.update n (max (case map_of vv n of None \<Rightarrow> 0 | Some c \<Rightarrow> c) t) vv"

text \<open>
  The fields every \<^verbatim>\<open>CRDT\<close> instance has. The concrete CRDTs extend this record,
  as the classes extend \<^verbatim>\<open>CRDT\<close>.
\<close>

record crdt =
  node_id :: string
  operations :: "operation list"
  version_vector :: "(string \<times> real) list"

definition operations_since :: "'a crdt_scheme \<Rightarrow> real \<Rightarrow> operation list" where
  "operations_since c t = filter (\<lambda>op. op_timestamp op > t) (operations c)"

definition all_operations :: "'a crdt_scheme \<Rightarrow> operation list" where
  "all_operations c = operations c"

definition record_operation :: "'a crdt_scheme \<Rightarrow> operation \<Rightarrow> 'a crdt_scheme" where
  "record_operation c op =
     c\<lparr>operations := operations c @ [op],
       version_vector := vv_update (version_vector c) (op_node_id op) (op_timestamp op)\<rparr>"

definition has_seen :: "'a crdt_scheme \<Rightarrow> operation \<Rightarrow> bool" where
  "has_seen c op = list_ex (\<lambda>existing. op_id existing = op_id op) (operations c)"

section \<open>LWW-Register (crdt/register.py)\<close>

record timestamped_value =
  tv_value :: jval
  tv_timestamp :: real
  tv_node_id :: string

text \<open>\<^verbatim>\<open>TimestampedValue.__gt__\<close>; strings compare lexicographically by character code.\<close>

definition tv_gt :: "timestamped_value \<Rightarrow> timestamped_value \<Rightarrow> bool" where
  "tv_gt a b =
     (if tv_timestamp a \<noteq> tv_timestamp b then tv_timestamp a > tv_timestamp b
      else tv_node_id a > tv_node_id b)"

record lww_register = crdt +
  current :: timestamped_value

definition LWWRegister :: "string \<Rightarrow> jval \<Rightarrow> lww_register" where
  "LWWRegister n initial_value =
     \<lparr>node_id = n, operations = [], version_vector = [],
      current = \<lparr>tv_value = initial_value, tv_timestamp = 0, tv_node_id = n\<rparr>\<rparr>"

definition new_value :: "operation \<Rightarrow> timestamped_value" where
  "new_value op =
     \<lparr>tv_value = op_value op, tv_timestamp = op_timestamp op, tv_node_id = op_node_id op\<rparr>"

definition apply_reg :: "lww_register \<Rightarrow> operation \<Rightarrow> error + (lww_register \<times> bool)" where
  "apply_reg r op =
     (if has_seen r op then Inr (r, False)
      else if op_type op \<noteq> ''set'' then Inl ValueError
      else
        let r' = (if tv_gt (new_value op) (current r) then r\<lparr>current := new_value op\<rparr> else r)
        in Inr (record_operation r' op, True))"

section \<open>LWW-Map (crdt/map.py)\<close>

type_synonym entry = "jval \<times> real \<times> string"
type_synonym tombstone = "real \<times> string"

record lww_map = crdt +
  entries :: "(path \<times> entry) list"
  tombstones :: "(path \<times> tombstone) list"

definition is_newer :: "real \<Rightarrow> string \<Rightarrow> real \<Rightarrow> string \<Rightarrow> bool" where
  "is_newer ts1 node1 ts2 node2 = (if ts1 \<noteq> ts2 then ts1 > ts2 else node1 > node2)"

text \<open>
  The guarded store that \<^verbatim>\<open>_apply_set\<close> and \<^verbatim>\<open>_flatten_set\<close> both end in:
  \<^verbatim>\<open>existing = self._entries.get(p)\<close>, then the assignment when there is no entry or
  the incoming pair is newer.
\<close>

definition store_if_newer :: "(path \<times> entry) list \<Rightarrow> path \<Rightarrow> jval \<Rightarrow> real \<Rightarrow> string \<Rightarrow> (path \<times> entry) list" where
  "store_if_newer es p v t n =
     (case map_of es p of
        None \<Rightarrow> AList.update p (v, t, n) es
      | Some (v0, t0, n0) \<Rightarrow>
          if is_newer t n t0 n0 then AList.update p (v, t, n) es else es)"

function flatten_set :: "(path \<times> entry) list \<Rightarrow> path \<Rightarrow> (string \<times> jval) list \<Rightarrow> real \<Rightarrow> string \<Rightarrow> (path \<times> entry) list" where
  "flatten_set es p [] t n = es"
| "flatten_set es p ((k, v) # kvs) t n =
     (case v of
        JDict d \<Rightarrow> flatten_set (flatten_set es (p @ [k]) d t n) p kvs t n
      | _ \<Rightarrow> flatten_set (store_if_newer es (p @ [k]) v t n) p kvs t n)"
  by pat_completeness auto
termination
  by (relation "measure (\<lambda>(es, p, kvs, t, n). size (JDict kvs))") auto

text \<open>
  The leaves of a nested dictionary below a path, in the order \<^verbatim>\<open>_flatten_set\<close>
  visits them.
\<close>

function leaves :: "path \<Rightarrow> (string \<times> jval) list \<Rightarrow> (path \<times> jval) list" where
  "leaves p [] = []"
| "leaves p ((k, v) # kvs) =
     (case v of JDict d \<Rightarrow> leaves (p @ [k]) d | _ \<Rightarrow> [(p @ [k], v)]) @ leaves p kvs"
  by pat_completeness auto
termination
  by (relation "measure (\<lambda>(p, kvs). size (JDict kvs))") auto

definition apply_set :: "(path \<times> entry) list \<Rightarrow> path \<Rightarrow> jval \<Rightarrow> real \<Rightarrow> string \<Rightarrow> (path \<times> entry) list" where
  "apply_set es p v t n =
     (case v of
        JDict d \<Rightarrow> flatten_set es p d t n
      | _ \<Rightarrow> store_if_newer es p v t n)"

definition apply_delete :: "(path \<times> tombstone) list \<Rightarrow> path \<Rightarrow> real \<Rightarrow> string \<Rightarrow> (path \<times> tombstone) list" where
  "apply_delete tbs p t n =
     (case map_of tbs p of
        None \<Rightarrow> AList.update p (t, n) tbs
      | Some (t0, n0) \<Rightarrow> if is_newer t n t0 n0 then AList.update p (t, n) tbs else tbs)"

definition apply_lm :: "lww_map \<Rightarrow> operation \<Rightarrow> error + (lww_map \<times> bool)" where
  "apply_lm m op =
     (if has_seen m op then Inr (m, False)
      else if op_type op = ''set'' then
        Inr (record_operation
               (m\<lparr>entries := apply_set (entries m) (op_path op) (op_value op)
                                (op_timestamp op) (op_node_id op)\<rparr>) op, True)
      else if op_type op = ''delete'' then
        Inr (record_operation
               (m\<lparr>tombstones := apply_delete (tombstones m) (op_path op)
                                   (op_timestamp op) (op_node_id op)\<rparr>) op, True)
      else Inl ValueError)"

text \<open>
  \<^verbatim>\<open>LWWMap.__init__\<close> with \<^verbatim>\<open>_init_from_value\<close>: every leaf of the initial dictionary
  is stored directly, with timestamp 0.0 and the map's own node id.
\<close>

function init_from_value :: "(path \<times> entry) list \<Rightarrow> string \<Rightarrow> path \<Rightarrow> (string \<times> jval) list \<Rightarrow> (path \<times> entry) list" where
  "init_from_value es self_node p [] = es"
| "init_from_value es self_node p ((k, v) # kvs) =
     (case v of
        JDict d \<Rightarrow> init_from_value (init_from_value es self_node (p @ [k]) d) self_node p kvs
      | _ \<Rightarrow> init_from_value (AList.update (p @ [k]) (v, 0, self_node) es) self_node p kvs)"
  by pat_completeness auto
termination
  by (relation "measure (\<lambda>(es, self_node, p, kvs). size (JDict kvs))") auto

definition LWWMap :: "string \<Rightarrow> (string \<times> jval) list option \<Rightarrow> lww_map" where
  "LWWMap n initial_value =
     \<lparr>node_id = n, operations = [], version_vector = [],
      entries = (case initial_value of
                   None \<Rightarrow> []
                 | Some d \<Rightarrow> if d = [] then [] else init_from_value [] n [] d),
      tombstones = []\<rparr>"

text \<open>
  \<^verbatim>\<open>Operation.create\<close> reads a fresh UUID and the clock; both are inputs here.
\<close>

definition create :: "string \<Rightarrow> path \<Rightarrow> string \<Rightarrow> jval \<Rightarrow> string \<Rightarrow> real \<Rightarrow> operation" where
  "create n p ty v uuid4 now =
     \<lparr>op_id = uuid4, op_timestamp = now, op_node_id = n, op_path = p, op_type = ty,
      op_value = v\<rparr>"

text \<open>
  \<^verbatim>\<open>LWWMap.set(self, path, value)\<close> and \<^verbatim>\<open>LWWMap.delete(self, path)\<close>: create the
  operation with the map's own node id, apply it, return it.
\<close>

definition set_lm :: "lww_map \<Rightarrow> path \<Rightarrow> jval \<Rightarrow> string \<Rightarrow> real \<Rightarrow> error + (lww_map \<times> operation)" where
  "set_lm m p v uuid4 now =
     (let op = create (node_id m) p ''set'' v uuid4 now
      in case apply_lm m op of Inl e \<Rightarrow> Inl e | Inr (m', applied) \<Rightarrow> Inr (m', op))"

definition delete_lm :: "lww_map \<Rightarrow> path \<Rightarrow> string \<Rightarrow> real \<Rightarrow> error + (lww_map \<times> operation)" where
  "delete_lm m p uuid4 now =
     (let op = create (node_id m) p ''delete'' JNull uuid4 now
      in case apply_lm m op of Inl e \<Rightarrow> Inl e | Inr (m', applied) \<Rightarrow> Inr (m', op))"

text \<open>
  \<^verbatim>\<open>LWWMap.merge\<close>: apply every operation of the other map's log.
\<close>

fun apply_all_lm :: "lww_map \<Rightarrow> operation list \<Rightarrow> error + lww_map" where
  "apply_all_lm m [] = Inr m"
| "apply_all_lm m (op # ops) =
     (case apply_lm m op of Inl e \<Rightarrow> Inl e | Inr (m', applied) \<Rightarrow> apply_all_lm m' ops)"

definition merge_lm :: "lww_map \<Rightarrow> lww_map \<Rightarrow> error + lww_map" where
  "merge_lm m other = apply_all_lm m (all_operations other)"

subsection \<open>value(): building the nested dictionary\<close>

text \<open>
  The tombstone test of \<^verbatim>\<open>value()\<close>:
  \<^verbatim>\<open>tombstone = self._tombstones.get(path); if tombstone and tombstone[0] > ts: continue\<close>.
  A stored tombstone is a pair, so it is truthy whenever it is present.
\<close>

definition hidden :: "(path \<times> tombstone) list \<Rightarrow> path \<Rightarrow> real \<Rightarrow> bool" where
  "hidden tbs p ts = (case map_of tbs p of None \<Rightarrow> False | Some (tts, tn) \<Rightarrow> tts > ts)"

text \<open>
  The inner loop of \<^verbatim>\<open>value()\<close> for one entry. Walking \<^verbatim>\<open>path[:-1]\<close>, a missing key
  gets an empty dictionary, a key holding a non-dictionary is overwritten by an
  empty dictionary, and the walk descends; the last segment is then assigned the
  value. An empty path assigns nothing. A map built by operations stores no
  dictionary as an entry value (\<^verbatim>\<open>_apply_set\<close> flattens it), so every dictionary the
  walk descends into is one this loop created.
\<close>

definition child_dict :: "(string \<times> jval) list \<Rightarrow> string \<Rightarrow> (string \<times> jval) list" where
  "child_dict d k = (case map_of d k of Some (JDict c) \<Rightarrow> c | _ \<Rightarrow> [])"

fun set_path :: "(string \<times> jval) list \<Rightarrow> path \<Rightarrow> jval \<Rightarrow> (string \<times> jval) list" where
  "set_path d [] v = d"
| "set_path d [k] v = AList.update k v d"
| "set_path d (k # ks) v = AList.update k (JDict (set_path (child_dict d k) ks v)) d"

fun value_loop :: "(path \<times> tombstone) list \<Rightarrow> (path \<times> entry) list \<Rightarrow> (string \<times> jval) list \<Rightarrow> (string \<times> jval) list" where
  "value_loop tbs [] result = result"
| "value_loop tbs ((p, (v, ts, n)) # es) result =
     (if hidden tbs p ts then value_loop tbs es result
      else value_loop tbs es (set_path result p v))"

definition value_lm :: "lww_map \<Rightarrow> (string \<times> jval) list" where
  "value_lm m = value_loop (tombstones m) (entries m) []"

text \<open>
  Reading the materialised dictionary at a path, \<^verbatim>\<open>d[k1][k2]...[kn]\<close>: \<open>None\<close> when
  a key is missing or a non-dictionary is met before the path ends.
\<close>

fun lookup_path :: "(string \<times> jval) list \<Rightarrow> path \<Rightarrow> jval option" where
  "lookup_path d [] = Some (JDict d)"
| "lookup_path d [k] = map_of d k"
| "lookup_path d (k # ks) =
     (case map_of d k of Some (JDict c) \<Rightarrow> lookup_path c ks | _ \<Rightarrow> None)"

subsection \<open>Serialisation: to_dict, from_dict, state, from_state\<close>

text \<open>
  The dictionary form of an operation. A field is \<open>None\<close> when the key is absent
  (a dictionary from the wire may lack keys; \<^verbatim>\<open>to_dict\<close> writes them all).
\<close>

record op_dict =
  d_id :: "string option"
  d_timestamp :: "real option"
  d_node_id :: "string option"
  d_path :: "path option"
  d_op_type :: "string option"
  d_value :: "jval option"

definition to_dict :: "operation \<Rightarrow> op_dict" where
  "to_dict op =
     \<lparr>d_id = Some (op_id op), d_timestamp = Some (op_timestamp op),
      d_node_id = Some (op_node_id op), d_path = Some (op_path op),
      d_op_type = Some (op_type op), d_value = Some (op_value op)\<rparr>"

text \<open>
  \<^verbatim>\<open>Operation.from_dict(data, use_server_timestamp=True)\<close>. The clock reading
  \<^verbatim>\<open>time.time()\<close> is the input \<open>now\<close>. \<^verbatim>\<open>data["k"]\<close> raises KeyError on a missing key;
  \<^verbatim>\<open>data.get("value")\<close> gives None.
\<close>

definition from_dict :: "op_dict \<Rightarrow> bool \<Rightarrow> real \<Rightarrow> error + operation" where
  "from_dict data use_server_timestamp now =
     (case d_id data of None \<Rightarrow> Inl KeyError | Some i \<Rightarrow>
      case (if use_server_timestamp then Some now else d_timestamp data) of
        None \<Rightarrow> Inl KeyError | Some t \<Rightarrow>
      case d_node_id data of None \<Rightarrow> Inl KeyError | Some n \<Rightarrow>
      case d_path data of None \<Rightarrow> Inl KeyError | Some p \<Rightarrow>
      case d_op_type data of None \<Rightarrow> Inl KeyError | Some ty \<Rightarrow>
        Inr \<lparr>op_id = i, op_timestamp = t, op_node_id = n, op_path = p, op_type = ty,
             op_value = (case d_value data of None \<Rightarrow> JNull | Some v \<Rightarrow> v)\<rparr>)"

text \<open>\<^verbatim>\<open>".".join(path)\<close> and \<^verbatim>\<open>path_str.split(".")\<close>.\<close>

fun join_dot :: "path \<Rightarrow> string" where
  "join_dot [] = []"
| "join_dot [s] = s"
| "join_dot (s # ss) = s @ ''.'' @ join_dot ss"

fun split_acc :: "string \<Rightarrow> string \<Rightarrow> string list" where
  "split_acc cur [] = [cur]"
| "split_acc cur (c # cs) =
     (if c = CHR ''.'' then cur # split_acc [] cs else split_acc (cur @ [c]) cs)"

definition split_dot :: "string \<Rightarrow> string list" where
  "split_dot s = split_acc [] s"

record lww_state =
  st_entries :: "(string \<times> entry) list"
  st_tombstones :: "(string \<times> tombstone) list"
  st_operations :: "op_dict list"

definition state_lm :: "lww_map \<Rightarrow> lww_state" where
  "state_lm m =
     \<lparr>st_entries = fold (\<lambda>(p, e). AList.update (join_dot p) e) (entries m) [],
      st_tombstones = fold (\<lambda>(p, tb). AList.update (join_dot p) tb) (tombstones m) [],
      st_operations = map to_dict (operations m)\<rparr>"

text \<open>
  The list comprehension \<^verbatim>\<open>[Operation.from_dict(op) for op in ...]\<close> of \<^verbatim>\<open>from_state\<close>:
  each call takes the default \<^verbatim>\<open>use_server_timestamp=True\<close> and reads the clock; the
  reading for the i-th operation is \<open>clock i\<close>.
\<close>

fun from_dicts :: "op_dict list \<Rightarrow> (nat \<Rightarrow> real) \<Rightarrow> nat \<Rightarrow> error + operation list" where
  "from_dicts [] clock i = Inr []"
| "from_dicts (d # ds) clock i =
     (case from_dict d True (clock i) of
        Inl e \<Rightarrow> Inl e
      | Inr op \<Rightarrow>
         (case from_dicts ds clock (Suc i) of
            Inl e \<Rightarrow> Inl e
          | Inr ops \<Rightarrow> Inr (op # ops)))"

definition path_of_str :: "string \<Rightarrow> path" where
  "path_of_str path_str = (if path_str \<noteq> [] then split_dot path_str else [])"

definition from_state :: "string \<Rightarrow> lww_state \<Rightarrow> (nat \<Rightarrow> real) \<Rightarrow> error + lww_map" where
  "from_state n st clock =
     (case from_dicts (st_operations st) clock 0 of
        Inl e \<Rightarrow> Inl e
      | Inr ops \<Rightarrow>
          Inr ((LWWMap n None)
                 \<lparr>operations := ops,
                  entries := fold (\<lambda>(s, e). AList.update (path_of_str s) e) (st_entries st) [],
                  tombstones := fold (\<lambda>(s, tb). AList.update (path_of_str s) tb)
                                  (st_tombstones st) []\<rparr>))"

subsection \<open>The visibility rule as the specification words it\<close>

text \<open>
  The specification's rule, for comparison with \<open>hidden\<close>: an entry is hidden when
  some tombstone whose path equals or is a prefix of the entry's path has a
  (timestamp, origin) pair at or above the entry's pair.
\<close>

definition spec_hidden :: "(path \<times> tombstone) list \<Rightarrow> path \<Rightarrow> real \<Rightarrow> string \<Rightarrow> bool" where
  "spec_hidden tbs p ts n = list_ex (\<lambda>(q, tb). prefix q p \<and> (ts, n) \<le> tb) tbs"

section \<open>Rooms and the room manager (room.py)\<close>

text \<open>
  A WebSocket is known by its identity only. \<^verbatim>\<open>protocol.User\<close> and \<^verbatim>\<open>auth.AuthUser\<close>
  are the two classes a connection's user can be an instance of.
\<close>

type_synonym ws = nat

record user =
  user_id :: string
  user_name :: string
  user_metadata :: "(string \<times> jval) list"

record auth_user =
  au_id :: string
  au_name :: string
  au_email :: "string option"
  au_roles :: "string list"
  au_metadata :: "(string \<times> jval) list"

datatype conn_user = AuthUser auth_user | User user

fun get_user_id :: "conn_user \<Rightarrow> string" where
  "get_user_id (AuthUser u) = au_id u"
| "get_user_id (User u) = user_id u"

text \<open>
  A registered server function; the handler is opaque and known by an identity.
\<close>

record registered_function =
  rf_name :: string
  rf_func :: nat
  rf_requires_auth :: bool
  rf_required_permissions :: "string list"

record room =
  room_id :: string
  room_node_id :: string
  room_state :: lww_map
  connections :: "(string \<times> (user \<times> ws)) list"
  room_functions :: "(string \<times> registered_function) list"
  created_at :: real
  room_metadata :: "(string \<times> jval) list"

text \<open>
  \<^verbatim>\<open>Room.__init__\<close>: \<^verbatim>\<open>self.node_id = node_id or f"server-{room_id}"\<close>.
\<close>

definition Room :: "string \<Rightarrow> string option \<Rightarrow> (string \<times> jval) list option \<Rightarrow> room" where
  "Room rid node initial_state =
     (let nid = (case node of None \<Rightarrow> ''server-'' @ rid
                 | Some n \<Rightarrow> if n = [] then ''server-'' @ rid else n)
      in \<lparr>room_id = rid, room_node_id = nid, room_state = LWWMap nid initial_state,
          connections = [], room_functions = [], created_at = 0, room_metadata = []\<rparr>)"

definition set_metadata :: "room \<Rightarrow> string \<Rightarrow> jval \<Rightarrow> room" where
  "set_metadata r k v = r\<lparr>room_metadata := AList.update k v (room_metadata r)\<rparr>"

text \<open>\<^verbatim>\<open>Room.register_function\<close>; \<^verbatim>\<open>required_permissions or []\<close>.\<close>

definition room_register_function :: "room \<Rightarrow> string \<Rightarrow> nat \<Rightarrow> bool \<Rightarrow> string list option \<Rightarrow> room" where
  "room_register_function r name func requires_auth required_permissions =
     r\<lparr>room_functions :=
         AList.update name
           \<lparr>rf_name = name, rf_func = func, rf_requires_auth = requires_auth,
            rf_required_permissions =
              (case required_permissions of None \<Rightarrow> [] | Some ps \<Rightarrow> ps)\<rparr>
           (room_functions r)\<rparr>"

definition apply_operation :: "room \<Rightarrow> operation \<Rightarrow> error + (room \<times> bool)" where
  "apply_operation r op =
     (case apply_lm (room_state r) op of
        Inl e \<Rightarrow> Inl e
      | Inr (m', applied) \<Rightarrow> Inr (r\<lparr>room_state := m'\<rparr>, applied))"

definition get_all_operations :: "room \<Rightarrow> operation list" where
  "get_all_operations r = all_operations (room_state r)"

text \<open>
  Messages the server sends, and what a handler does to the outside: a send on a
  WebSocket, or a save to the storage backend. Sends are taken to succeed; the
  removal of members whose send failed is not part of this model.
\<close>

datatype error_code =
    AUTHENTICATION_FAILED | PERMISSION_DENIED | ROOM_NOT_FOUND | INVALID_MESSAGE
  | INVALID_OPERATION | FUNCTION_NOT_FOUND | FUNCTION_ERROR | INTERNAL_ERROR | RATE_LIMITED

datatype server_msg =
    ErrorMessage error_code string
  | OperationBroadcast string string op_dict
  | Authenticated string

datatype effect =
    Send ws server_msg
  | Save string "(string \<times> jval) list" "op_dict list"

text \<open>
  \<^verbatim>\<open>Room.broadcast(message, exclude_user, exclude_ws)\<close>: one send for every connection
  whose user id is not the excluded one and whose WebSocket is not the excluded one.
\<close>

definition broadcast :: "room \<Rightarrow> server_msg \<Rightarrow> string option \<Rightarrow> ws option \<Rightarrow> effect list" where
  "broadcast r message exclude_user exclude_ws =
     map (\<lambda>(uid, (u, w)). Send w message)
       (filter (\<lambda>(uid, (u, w)). Some uid \<noteq> exclude_user \<and> Some w \<noteq> exclude_ws)
          (connections r))"

text \<open>
  The room manager. Callbacks are opaque; a call of one is recorded with the room it
  was given.
\<close>

record room_manager =
  rooms :: "(string \<times> room) list"
  global_functions :: "(string \<times> registered_function) list"
  on_room_created :: "nat list"
  on_room_deleted :: "nat list"

definition get_room :: "room_manager \<Rightarrow> string \<Rightarrow> room option" where
  "get_room mgr rid = map_of (rooms mgr) rid"

text \<open>
  \<^verbatim>\<open>RoomManager.create_room(room_id, initial_state, metadata)\<close>. The UUID that
  \<^verbatim>\<open>room_id or str(uuid.uuid4())\<close> may draw is the input \<open>uuid4\<close>. The result is the
  manager, the room returned, and the callbacks called.
\<close>

definition create_room :: "room_manager \<Rightarrow> string option \<Rightarrow> (string \<times> jval) list option \<Rightarrow> (string \<times> jval) list option \<Rightarrow> string \<Rightarrow> room_manager \<times> room \<times> (nat \<times> room) list" where
  "create_room mgr rid_arg initial_state metadata uuid4 =
     (let rid = (case rid_arg of None \<Rightarrow> uuid4 | Some r \<Rightarrow> if r = [] then uuid4 else r)
      in case map_of (rooms mgr) rid of
           Some existing \<Rightarrow> (mgr, existing, [])
         | None \<Rightarrow>
            (let r0 = Room rid None initial_state;
                 r1 = fold (\<lambda>(name, func_info) r.
                        room_register_function r name (rf_func func_info)
                          (rf_requires_auth func_info)
                          (Some (rf_required_permissions func_info)))
                        (global_functions mgr) r0;
                 r2 = (case metadata of
                         None \<Rightarrow> r1
                       | Some md \<Rightarrow> fold (\<lambda>(k, v) r. set_metadata r k v) md r1)
             in (mgr\<lparr>rooms := AList.update rid r2 (rooms mgr)\<rparr>, r2,
                 map (\<lambda>callback. (callback, r2)) (on_room_created mgr))))"

text \<open>
  \<^verbatim>\<open>RoomManager.broadcast_operation(room_id, operation, sender_id, exclude_sender)\<close>.
\<close>

definition broadcast_operation :: "room_manager \<Rightarrow> string \<Rightarrow> operation \<Rightarrow> string \<Rightarrow> bool \<Rightarrow> effect list" where
  "broadcast_operation mgr rid op sender_id exclude_sender =
     (case map_of (rooms mgr) rid of
        None \<Rightarrow> []
      | Some r \<Rightarrow>
          broadcast r (OperationBroadcast rid sender_id (to_dict op))
            (if exclude_sender then Some sender_id else None) None)"

section \<open>The server (server.py)\<close>

definition DEFAULT_RATE_LIMIT :: real where "DEFAULT_RATE_LIMIT = 100"
definition DEFAULT_RATE_WINDOW :: real where "DEFAULT_RATE_WINDOW = 1"
definition MAX_CONNECTIONS_PER_USER :: int where "MAX_CONNECTIONS_PER_USER = 10"
definition MAX_AUTH_ATTEMPTS :: int where "MAX_AUTH_ATTEMPTS = 5"
definition AUTH_LOCKOUT_SECONDS :: real where "AUTH_LOCKOUT_SECONDS = 300"

subsection \<open>Floating-point arithmetic\<close>

text \<open>
  Python floats are IEEE 754 binary64 numbers: 53 significant bits, the smallest
  spacing \<open>2^-1074\<close>. An arithmetic operation on floats returns the exact result
  rounded to the nearest float, a tie going to the float with the even
  significand: \<open>fl\<close>. For a non-zero \<open>x\<close> the floats around \<open>x\<close> are the multiples of
  \<open>u = 2^e\<close>, where \<open>e\<close> is the binary exponent of \<open>x\<close> less 52, and not below -1074.
  Results beyond the largest float, infinities and NaN are outside the model.
\<close>

definition fl :: "real \<Rightarrow> real" where
  "fl x =
     (if x = 0 then 0
      else
        let e = max (\<lfloor>log 2 \<bar>x\<bar>\<rfloor> - 52) (- 1074);
            u = 2 powr real_of_int e;
            q = x / u;
            n = \<lfloor>q\<rfloor>
        in real_of_int
             (if q - real_of_int n < 1 / 2 then n
              else if 1 / 2 < q - real_of_int n then n + 1
              else if even n then n else n + 1) * u)"

text \<open>
  The multiples of \<open>2^-22\<close>. Every float from \<open>2^30\<close> on is one: the floats between
  \<open>2^30\<close> and \<open>2^31\<close>, where \<^verbatim>\<open>time.time()\<close> lies from 10 January 2004 to 19 January
  2038, are spaced \<open>2^-22\<close> apart, and later floats are spaced wider.
\<close>

definition on_grid :: "real \<Rightarrow> bool" where
  "on_grid x \<longleftrightarrow> x * 2 ^ 22 \<in> \<int>"

subsection \<open>RateLimiter: the token bucket\<close>

text \<open>
  \<^verbatim>\<open>_tokens\<close> is a \<^verbatim>\<open>defaultdict(lambda: rate)\<close> and \<^verbatim>\<open>_last_update\<close> a
  \<^verbatim>\<open>defaultdict(time.time)\<close>: a missing key reads as the rate, respectively as a
  fresh clock reading, and the read stores what it gives. \<open>now\<close> is the reading
  \<^verbatim>\<open>is_allowed\<close> takes itself, \<open>fresh\<close> the one the default factory would take. The
  subtraction, the division, the multiplication, the addition and the decrement
  each round their result. \<^verbatim>\<open>rate / window\<close> raises ZeroDivisionError for a zero
  window, after \<^verbatim>\<open>_last_update\<close> has been assigned and \<^verbatim>\<open>_tokens\<close> has been read. The
  function returns the limiter as the call leaves it together with the outcome:
  \<open>Inl\<close> the exception, \<open>Inr\<close> the verdict. The rate and the window are floats, or
  integers that convert to floats exactly.
\<close>

record rate_limiter =
  rl_rate :: real
  rl_window :: real
  rl_tokens :: "(ws \<times> real) list"
  rl_last_update :: "(ws \<times> real) list"

definition RateLimiter :: "real \<Rightarrow> real \<Rightarrow> rate_limiter" where
  "RateLimiter rate window =
     \<lparr>rl_rate = rate, rl_window = window, rl_tokens = [], rl_last_update = []\<rparr>"

definition is_allowed :: "rate_limiter \<Rightarrow> ws \<Rightarrow> real \<Rightarrow> real \<Rightarrow> rate_limiter \<times> (error + bool)" where
  "is_allowed rl w now fresh =
     (let last_reading = (case map_of (rl_last_update rl) w of None \<Rightarrow> fresh | Some l \<Rightarrow> l);
          elapsed = fl (now - last_reading);
          last_update' = AList.update w now (rl_last_update rl);
          tokens0 = (case map_of (rl_tokens rl) w of None \<Rightarrow> rl_rate rl | Some t \<Rightarrow> t)
      in if rl_window rl = 0
         then (rl\<lparr>rl_tokens := AList.update w tokens0 (rl_tokens rl),
                  rl_last_update := last_update'\<rparr>, Inl ZeroDivisionError)
         else
           let tokens1 = min (rl_rate rl)
                           (fl (tokens0 + fl (elapsed * fl (rl_rate rl / rl_window rl))))
           in if tokens1 \<ge> 1
              then (rl\<lparr>rl_tokens := AList.update w (fl (tokens1 - 1)) (rl_tokens rl),
                       rl_last_update := last_update'\<rparr>, Inr True)
              else (rl\<lparr>rl_tokens := AList.update w tokens1 (rl_tokens rl),
                       rl_last_update := last_update'\<rparr>, Inr False))"

text \<open>
  The receive loop of \<^verbatim>\<open>_handle_connection\<close>, as far as the rate limiter goes. Every
  iteration calls \<^verbatim>\<open>is_allowed\<close> first. When the gate refuses, RATE_LIMITED is sent and
  the next iteration begins: no frame is read. When the gate allows, the loop waits
  for a frame: \<^verbatim>\<open>receive_text\<close> returns one, or the message timeout passes and a ping
  is sent. What the server then does with the frame does not touch the rate
  limiter. An exception of \<^verbatim>\<open>is_allowed\<close> ends the loop.

  An iteration is given by the two clock readings of \<^verbatim>\<open>is_allowed\<close> and by what the
  wait would give: \<open>Some a\<close> for a frame that \<^verbatim>\<open>receive_text\<close> returns at time \<open>a\<close>, \<open>None\<close>
  for a timeout. The loop yields one event per iteration, with the gate's clock
  reading.
\<close>

datatype loop_event = RateLimited real | TimedOut real | Received real real

fun receive_loop :: "rate_limiter \<Rightarrow> ws \<Rightarrow> (real \<times> real \<times> real option) list \<Rightarrow> rate_limiter \<times> loop_event list \<times> error option" where
  "receive_loop rl w [] = (rl, [], None)"
| "receive_loop rl w ((now, fresh, waited) # its) =
     (case is_allowed rl w now fresh of
        (rl1, Inl e) \<Rightarrow> (rl1, [], Some e)
      | (rl1, Inr ok) \<Rightarrow>
          (case receive_loop rl1 w its of
             (rl2, events, err) \<Rightarrow>
               (rl2,
                (if \<not> ok then RateLimited now
                 else case waited of None \<Rightarrow> TimedOut now | Some a \<Rightarrow> Received now a) # events,
                err)))"

text \<open>The frames received within the second that begins at \<open>t\<close>.\<close>

fun in_window :: "real \<Rightarrow> loop_event \<Rightarrow> bool" where
  "in_window t (Received g a) = (t \<le> a \<and> a \<le> t + 1)"
| "in_window t e = False"

definition frames_within :: "real \<Rightarrow> loop_event list \<Rightarrow> nat" where
  "frames_within t events = length (filter (in_window t) events)"

text \<open>
  How the iterations of one connection lie in time. \<open>timed g p its\<close>: the previous
  gate reading was \<open>g\<close> and the previous iteration ended at \<open>p\<close>; every gate reading is a
  multiple of \<open>2^-22\<close>, is taken when the previous iteration has ended, and less than
  \<open>2^20\<close> seconds (twelve days) after the previous gate reading; a frame is received
  after the gate reading of its iteration. \<open>timed_loop\<close> is the same for a loop that
  starts: the default factory reads the clock after \<^verbatim>\<open>is_allowed\<close> has.
\<close>

fun timed :: "real \<Rightarrow> real \<Rightarrow> (real \<times> real \<times> real option) list \<Rightarrow> bool" where
  "timed g p [] = True"
| "timed g p ((now, fresh, waited) # its) =
     (on_grid now \<and> p \<le> now \<and> now - g < 2 ^ 20
      \<and> (case waited of None \<Rightarrow> timed now now its | Some a \<Rightarrow> now \<le> a \<and> timed now a its))"

definition timed_loop :: "(real \<times> real \<times> real option) list \<Rightarrow> bool" where
  "timed_loop its =
     (case its of
        [] \<Rightarrow> True
      | (now, fresh, waited) # rest \<Rightarrow>
          on_grid now \<and> on_grid fresh \<and> now \<le> fresh \<and> fresh - now < 2 ^ 20
          \<and> (case waited of None \<Rightarrow> timed now fresh rest
              | Some a \<Rightarrow> fresh \<le> a \<and> timed now a rest))"

text \<open>
  For the proofs: an event whose gate allowed at a reading up to \<open>U\<close>; the gate
  reading of an event; a frame received after its gate reading; and a bucket in
  use whose numbers are multiples of \<open>2^-22\<close> within bounds, for a limiter with the
  window of one second and a whole rate up to 1024.
\<close>

fun passed_by :: "real \<Rightarrow> loop_event \<Rightarrow> bool" where
  "passed_by U (RateLimited g) = False"
| "passed_by U (TimedOut g) = (g \<le> U)"
| "passed_by U (Received g a) = (g \<le> U)"

fun gate :: "loop_event \<Rightarrow> real" where
  "gate (RateLimited g) = g"
| "gate (TimedOut g) = g"
| "gate (Received g a) = g"

fun ordered :: "loop_event \<Rightarrow> bool" where
  "ordered (Received g a) = (g \<le> a)"
| "ordered e = True"

definition valid :: "rate_limiter \<Rightarrow> ws \<Rightarrow> real \<Rightarrow> real \<Rightarrow> bool" where
  "valid rl w l T \<longleftrightarrow>
     rl_window rl = 1 \<and> rl_rate rl \<in> \<nat> \<and> rl_rate rl \<le> 1024
     \<and> map_of (rl_last_update rl) w = Some l \<and> map_of (rl_tokens rl) w = Some T
     \<and> on_grid l \<and> on_grid T \<and> - (2 ^ 30) \<le> T \<and> T \<le> rl_rate rl"

subsection \<open>AuthRateLimiter\<close>

text \<open>
  \<^verbatim>\<open>_attempts\<close> is a \<^verbatim>\<open>defaultdict(int)\<close>: reading a missing key stores and gives 0.
\<close>

record auth_rate_limiter =
  al_max_attempts :: int
  al_lockout_seconds :: real
  al_attempts :: "(ws \<times> int) list"
  al_lockout_until :: "(ws \<times> real) list"

definition AuthRateLimiter :: "int \<Rightarrow> real \<Rightarrow> auth_rate_limiter" where
  "AuthRateLimiter max_attempts lockout_seconds =
     \<lparr>al_max_attempts = max_attempts, al_lockout_seconds = lockout_seconds,
      al_attempts = [], al_lockout_until = []\<rparr>"

definition attempts_read :: "(ws \<times> int) list \<Rightarrow> ws \<Rightarrow> (ws \<times> int) list \<times> int" where
  "attempts_read d w = (case map_of d w of None \<Rightarrow> (AList.update w 0 d, 0) | Some a \<Rightarrow> (d, a))"

definition auth_is_allowed :: "auth_rate_limiter \<Rightarrow> ws \<Rightarrow> real \<Rightarrow> auth_rate_limiter \<times> bool" where
  "auth_is_allowed al w now =
     (case map_of (al_lockout_until al) w of
        Some until \<Rightarrow>
          if now < until then (al, False)
          else
            let al1 = al\<lparr>al_lockout_until := AList.delete w (al_lockout_until al),
                         al_attempts := AList.update w 0 (al_attempts al)\<rparr>;
                (d, a) = attempts_read (al_attempts al1) w
            in (al1\<lparr>al_attempts := d\<rparr>, a < al_max_attempts al1)
      | None \<Rightarrow>
          let (d, a) = attempts_read (al_attempts al) w
          in (al\<lparr>al_attempts := d\<rparr>, a < al_max_attempts al))"

definition record_failure :: "auth_rate_limiter \<Rightarrow> ws \<Rightarrow> real \<Rightarrow> auth_rate_limiter" where
  "record_failure al w now =
     (let (d, a) = attempts_read (al_attempts al) w;
          al1 = al\<lparr>al_attempts := AList.update w (a + 1) d\<rparr>
      in if a + 1 \<ge> al_max_attempts al1
         then al1\<lparr>al_lockout_until :=
                     AList.update w (now + al_lockout_seconds al1) (al_lockout_until al1)\<rparr>
         else al1)"

definition record_success :: "auth_rate_limiter \<Rightarrow> ws \<Rightarrow> auth_rate_limiter" where
  "record_success al w =
     al\<lparr>al_attempts := AList.delete w (al_attempts al),
        al_lockout_until := AList.delete w (al_lockout_until al)\<rparr>"

text \<open>The failure count of a WebSocket, as a read of the \<^verbatim>\<open>defaultdict\<close> gives it.\<close>

definition attempts_of :: "auth_rate_limiter \<Rightarrow> ws \<Rightarrow> int" where
  "attempts_of al w = (case map_of (al_attempts al) w of None \<Rightarrow> 0 | Some a \<Rightarrow> a)"

text \<open>The limiter after an allowed attempt that fails.\<close>

definition after_failure :: "auth_rate_limiter \<Rightarrow> ws \<Rightarrow> real \<Rightarrow> real \<Rightarrow> auth_rate_limiter" where
  "after_failure al w now now_f = record_failure (fst (auth_is_allowed al w now)) w now_f"

subsection \<open>CollabkitServer\<close>

datatype permission = READ | WRITE | DELETE | ADMIN | SHARE | COMMENT

text \<open>
  The server's fields that the handlers below read or write. The auth provider is
  its \<^verbatim>\<open>validate_token\<close>, the permission manager its \<^verbatim>\<open>check_permission\<close>; the
  storage backend is present or not. \<open>auth_calls\<close> is not a field of the class: it
  logs the tokens \<^verbatim>\<open>validate_token\<close> was called with. The constructor builds
  \<^verbatim>\<open>RateLimiter(rate=rate_limit)\<close> and \<^verbatim>\<open>AuthRateLimiter()\<close> with the default window,
  attempt limit and lockout.
\<close>

record server =
  srv_auth :: "(string \<Rightarrow> auth_user option) option"
  srv_permissions :: "(string \<Rightarrow> string \<Rightarrow> permission \<Rightarrow> bool) option"
  srv_storage :: bool
  srv_rooms :: room_manager
  save_on_operation :: bool
  max_connections_per_user :: int
  srv_rate_limiter :: rate_limiter
  srv_auth_rate_limiter :: auth_rate_limiter
  ws_users :: "(ws \<times> conn_user) list"
  user_connections :: "(string \<times> ws set) list"
  auth_calls :: "string list"

definition CollabkitServer :: "(string \<Rightarrow> auth_user option) option \<Rightarrow> (string \<Rightarrow> string \<Rightarrow> permission \<Rightarrow> bool) option \<Rightarrow> bool \<Rightarrow> bool \<Rightarrow> real \<Rightarrow> int \<Rightarrow> server" where
  "CollabkitServer auth_provider permission_manager storage_backend save_on_op rate_limit max_conns =
     \<lparr>srv_auth = auth_provider, srv_permissions = permission_manager,
      srv_storage = storage_backend,
      srv_rooms = \<lparr>rooms = [], global_functions = [], on_room_created = [],
                   on_room_deleted = []\<rparr>,
      save_on_operation = save_on_op, max_connections_per_user = max_conns,
      srv_rate_limiter = RateLimiter rate_limit DEFAULT_RATE_WINDOW,
      srv_auth_rate_limiter = AuthRateLimiter MAX_AUTH_ATTEMPTS AUTH_LOCKOUT_SECONDS,
      ws_users = [], user_connections = [], auth_calls = []\<rparr>"

definition send_error :: "ws \<Rightarrow> error_code \<Rightarrow> string \<Rightarrow> effect" where
  "send_error w code message = Send w (ErrorMessage code message)"

definition put_room :: "server \<Rightarrow> string \<Rightarrow> room \<Rightarrow> server" where
  "put_room srv rid r =
     srv\<lparr>srv_rooms := (srv_rooms srv)\<lparr>rooms := AList.update rid r (rooms (srv_rooms srv))\<rparr>\<rparr>"

definition save_room :: "string \<Rightarrow> room \<Rightarrow> effect" where
  "save_room rid r =
     Save (''room:'' @ rid) (value_lm (room_state r)) (map to_dict (get_all_operations r))"

definition write_denied :: "server \<Rightarrow> string \<Rightarrow> string \<Rightarrow> bool" where
  "write_denied srv uid rid =
     (case srv_permissions srv of None \<Rightarrow> False | Some check \<Rightarrow> \<not> check uid rid WRITE)"

text \<open>
  The rate-limit gate at the top of the receive loop of \<^verbatim>\<open>_handle_connection\<close>.
\<close>

definition rate_limit_gate :: "server \<Rightarrow> ws \<Rightarrow> real \<Rightarrow> real \<Rightarrow> server \<times> effect list \<times> (error + bool)" where
  "rate_limit_gate srv w now fresh =
     (case is_allowed (srv_rate_limiter srv) w now fresh of
        (rl', Inl e) \<Rightarrow> (srv\<lparr>srv_rate_limiter := rl'\<rparr>, [], Inl e)
      | (rl', Inr ok) \<Rightarrow>
          (srv\<lparr>srv_rate_limiter := rl'\<rparr>,
           if ok then [] else [send_error w RATE_LIMITED ''Rate limit exceeded.''], Inr ok))"

text \<open>
  \<^verbatim>\<open>_handle_operation\<close>. \<open>now\<close> is the clock reading of \<^verbatim>\<open>Operation.from_dict\<close>. Every
  exception raised inside the \<^verbatim>\<open>try\<close> block is answered with INVALID_OPERATION.
\<close>

definition handle_operation :: "server \<Rightarrow> ws \<Rightarrow> string \<Rightarrow> op_dict \<Rightarrow> real \<Rightarrow> server \<times> effect list" where
  "handle_operation srv w rid data now =
     (case map_of (ws_users srv) w of
        None \<Rightarrow> (srv, [send_error w AUTHENTICATION_FAILED ''Not authenticated.''])
      | Some u \<Rightarrow>
          let uid = get_user_id u
          in if write_denied srv uid rid
             then (srv, [send_error w PERMISSION_DENIED ''Permission denied to write.''])
             else
               case get_room (srv_rooms srv) rid of
                 None \<Rightarrow>
                   (srv, [send_error w ROOM_NOT_FOUND (''Room '' @ [CHR 0x27] @ rid @ [CHR 0x27] @ '' not found.'')])
               | Some r \<Rightarrow>
                  (case from_dict data True now of
                     Inl e \<Rightarrow> (srv, [send_error w INVALID_OPERATION ''Invalid operation.''])
                   | Inr operation \<Rightarrow>
                      (case apply_operation r operation of
                         Inl e \<Rightarrow> (srv, [send_error w INVALID_OPERATION ''Invalid operation.''])
                       | Inr (r', applied) \<Rightarrow>
                           if applied then
                             (let srv' = put_room srv rid r'
                              in (srv',
                                  broadcast_operation (srv_rooms srv') rid operation uid True
                                  @ (if save_on_operation srv \<and> srv_storage srv
                                     then [save_room rid r'] else [])))
                           else (srv, []))))"

text \<open>
  A call of the bound method \<^verbatim>\<open>LWWMap.set\<close> with positional arguments. The method
  declares two parameters after \<^verbatim>\<open>self\<close>, \<^verbatim>\<open>path\<close> and \<^verbatim>\<open>value\<close>; Python raises TypeError,
  before the body runs, for a call with any other number of positional arguments.
\<close>

datatype py_arg = PathArg path | ValueArg jval | StrArg string

definition call_set :: "lww_map \<Rightarrow> py_arg list \<Rightarrow> string \<Rightarrow> real \<Rightarrow> error + (lww_map \<times> operation)" where
  "call_set m args uuid4 now =
     (case args of
        [PathArg p, ValueArg v] \<Rightarrow> set_lm m p v uuid4 now
      | _ \<Rightarrow> Inl TypeError)"

text \<open>
  \<^verbatim>\<open>_handle_state_update\<close>. The call is
  \<^verbatim>\<open>room.state.set(path, message.value, user_id)\<close>, with three positional arguments.
\<close>

definition handle_state_update :: "server \<Rightarrow> ws \<Rightarrow> string \<Rightarrow> string option \<Rightarrow> jval \<Rightarrow> string \<Rightarrow> real \<Rightarrow> error + (server \<times> effect list)" where
  "handle_state_update srv w rid path_field v uuid4 now =
     (case map_of (ws_users srv) w of
        None \<Rightarrow> Inr (srv, [send_error w AUTHENTICATION_FAILED ''Not authenticated.''])
      | Some u \<Rightarrow>
          let uid = get_user_id u
          in if write_denied srv uid rid
             then Inr (srv, [send_error w PERMISSION_DENIED ''Permission denied to write.''])
             else
               case get_room (srv_rooms srv) rid of
                 None \<Rightarrow>
                   Inr (srv, [send_error w ROOM_NOT_FOUND (''Room '' @ [CHR 0x27] @ rid @ [CHR 0x27] @ '' not found.'')])
               | Some r \<Rightarrow>
                  (let p = (case path_field of
                              None \<Rightarrow> []
                            | Some s \<Rightarrow> if s = [] then [] else split_dot s)
                   in case call_set (room_state r) [PathArg p, ValueArg v, StrArg uid] uuid4 now of
                        Inl e \<Rightarrow> Inl e
                      | Inr (m', operation) \<Rightarrow>
                         (let r' = r\<lparr>room_state := m'\<rparr>
                          in Inr (put_room srv rid r',
                                  broadcast r' (OperationBroadcast rid uid (to_dict operation))
                                    None (Some w)
                                  @ (if srv_storage srv then [save_room rid r'] else [])))))"

text \<open>
  What the receive loop of \<^verbatim>\<open>_handle_connection\<close> does with a handler's outcome: an
  exception that escapes the handler is answered with INTERNAL_ERROR and ends
  the loop.
\<close>

datatype conn_status = Open | Closed

definition after_handler :: "server \<Rightarrow> ws \<Rightarrow> error + (server \<times> effect list) \<Rightarrow> server \<times> effect list \<times> conn_status" where
  "after_handler srv w outcome =
     (case outcome of
        Inr (srv', effects) \<Rightarrow> (srv', effects, Open)
      | Inl e \<Rightarrow> (srv, [send_error w INTERNAL_ERROR ''Internal error.''], Closed))"

text \<open>
  \<^verbatim>\<open>_handle_auth\<close>. \<open>now\<close> is the clock reading of \<^verbatim>\<open>is_allowed\<close>, \<open>now_f\<close> the one of
  \<^verbatim>\<open>record_failure\<close>.
\<close>

definition connections_read :: "(string \<times> ws set) list \<Rightarrow> string \<Rightarrow> (string \<times> ws set) list \<times> ws set" where
  "connections_read d uid =
     (case map_of d uid of None \<Rightarrow> (AList.update uid {} d, {}) | Some s \<Rightarrow> (d, s))"

definition bind_user :: "server \<Rightarrow> ws \<Rightarrow> conn_user \<Rightarrow> string \<Rightarrow> effect \<Rightarrow> server \<times> effect list" where
  "bind_user srv w u uid on_success =
     (let (d, s) = connections_read (user_connections srv) uid
      in if int (card s) \<ge> max_connections_per_user srv
         then (srv\<lparr>user_connections := d\<rparr>,
               [send_error w RATE_LIMITED ''Too many connections.''])
         else (srv\<lparr>ws_users := AList.update w u (ws_users srv),
                    user_connections := AList.update uid (insert w s) d\<rparr>, [on_success]))"

definition handle_auth :: "server \<Rightarrow> ws \<Rightarrow> string \<Rightarrow> real \<Rightarrow> real \<Rightarrow> server \<times> effect list" where
  "handle_auth srv w token now now_f =
     (case srv_auth srv of
        None \<Rightarrow> (srv, [send_error w AUTHENTICATION_FAILED ''Authentication not configured.''])
      | Some validate_token \<Rightarrow>
          (let (al, allowed) = auth_is_allowed (srv_auth_rate_limiter srv) w now;
               srv1 = srv\<lparr>srv_auth_rate_limiter := al\<rparr>
           in if \<not> allowed
              then (srv1, [send_error w RATE_LIMITED ''Too many auth attempts. Try again later.''])
              else
                let srv2 = srv1\<lparr>auth_calls := auth_calls srv1 @ [token]\<rparr>
                in case validate_token token of
                     Some u \<Rightarrow>
                       bind_user
                         (srv2\<lparr>srv_auth_rate_limiter :=
                                  record_success (srv_auth_rate_limiter srv2) w\<rparr>)
                         w (AuthUser u) (au_id u) (Send w (Authenticated (au_id u)))
                   | None \<Rightarrow>
                       (srv2\<lparr>srv_auth_rate_limiter :=
                                record_failure (srv_auth_rate_limiter srv2) w now_f\<rparr>,
                        [send_error w AUTHENTICATION_FAILED ''Invalid authentication token.''])))"

text \<open>
  The token block at the head of \<^verbatim>\<open>_handle_join\<close>, the other place that validates a
  token: it either rejects the join, or goes on with the user it found.
\<close>

datatype join_auth = Rejected | Proceed "conn_user option"

definition join_authenticate :: "server \<Rightarrow> ws \<Rightarrow> string option \<Rightarrow> real \<Rightarrow> real \<Rightarrow> server \<times> effect list \<times> join_auth" where
  "join_authenticate srv w token_field now now_f =
     (let u0 = map_of (ws_users srv) w
      in case (token_field, srv_auth srv) of
           (Some token, Some validate_token) \<Rightarrow>
             if token = [] then (srv, [], Proceed u0)
             else
               (let (al, allowed) = auth_is_allowed (srv_auth_rate_limiter srv) w now;
                    srv1 = srv\<lparr>srv_auth_rate_limiter := al\<rparr>
                in if \<not> allowed
                   then (srv1, [send_error w RATE_LIMITED ''Too many auth attempts. Try again later.''],
                         Rejected)
                   else
                     let srv2 = srv1\<lparr>auth_calls := auth_calls srv1 @ [token]\<rparr>
                     in case validate_token token of
                          Some u \<Rightarrow>
                            (srv2\<lparr>srv_auth_rate_limiter :=
                                     record_success (srv_auth_rate_limiter srv2) w\<rparr>,
                             [], Proceed (Some (AuthUser u)))
                        | None \<Rightarrow>
                            (srv2\<lparr>srv_auth_rate_limiter :=
                                     record_failure (srv_auth_rate_limiter srv2) w now_f\<rparr>,
                             [send_error w AUTHENTICATION_FAILED ''Invalid authentication token.''],
                             Rejected))
         | _ \<Rightarrow> (srv, [], Proceed u0))"

text \<open>
  Authentication attempts on one WebSocket, in the order the receive loop handles
  them: an \<open>auth\<close> message, or a \<open>join\<close> message carrying a token (an empty token is
  falsy and starts no attempt). Each comes with its token and the two clock
  readings. A join whose token validates goes on to the rest of \<^verbatim>\<open>_handle_join\<close>,
  which touches neither the limiter nor the provider and is left out here.
\<close>

datatype auth_attempt = ViaAuth string real real | ViaJoin string real real

fun token_of :: "auth_attempt \<Rightarrow> string" where
  "token_of (ViaAuth token now now_f) = token"
| "token_of (ViaJoin token now now_f) = token"

fun check_time :: "auth_attempt \<Rightarrow> real" where
  "check_time (ViaAuth token now now_f) = now"
| "check_time (ViaJoin token now now_f) = now"

fun failure_time :: "auth_attempt \<Rightarrow> real" where
  "failure_time (ViaAuth token now now_f) = now_f"
| "failure_time (ViaJoin token now now_f) = now_f"

fun is_attempt :: "auth_attempt \<Rightarrow> bool" where
  "is_attempt (ViaAuth token now now_f) = True"
| "is_attempt (ViaJoin token now now_f) = (token \<noteq> [])"

fun attempt_step :: "server \<Rightarrow> ws \<Rightarrow> auth_attempt \<Rightarrow> server \<times> effect list" where
  "attempt_step srv w (ViaAuth token now now_f) = handle_auth srv w token now now_f"
| "attempt_step srv w (ViaJoin token now now_f) =
     (case join_authenticate srv w (Some token) now now_f of
        (srv', effects, outcome) \<Rightarrow> (srv', effects))"

fun attempts_run :: "server \<Rightarrow> ws \<Rightarrow> auth_attempt list \<Rightarrow> server \<times> effect list" where
  "attempts_run srv w [] = (srv, [])"
| "attempts_run srv w (a # as) =
     (case attempt_step srv w a of
        (srv1, effects1) \<Rightarrow>
          (case attempts_run srv1 w as of
             (srv2, effects2) \<Rightarrow> (srv2, effects1 @ effects2)))"

section \<open>OR-Set (crdt/set.py)\<close>

text \<open>
  \<^verbatim>\<open>_hash_value\<close> is the first 16 hex digits of the SHA-256 of the value's canonical
  JSON text; it is a parameter \<open>H\<close> of the functions below.

  A Python set is kept as a list without equal elements, in insertion order.
  \<^verbatim>\<open>s.add(x)\<close> raises TypeError for an \<open>x\<close> that cannot be hashed (among the JSON values,
  a list or a dictionary), leaves \<open>s\<close> as it is when \<open>s\<close> holds an element equal to \<open>x\<close>
  under \<^verbatim>\<open>==\<close>, and puts \<open>x\<close> into \<open>s\<close> otherwise. A set iterates in an order of its own:
  every loop over a bucket runs over \<open>order bucket\<close>, for a parameter \<open>order\<close>.
\<close>

fun hashable :: "jval \<Rightarrow> bool" where
  "hashable (JList xs) = False"
| "hashable (JDict d) = False"
| "hashable v = True"

text \<open>
  Python's \<^verbatim>\<open>==\<close> on JSON values. \<^verbatim>\<open>True\<close> and \<^verbatim>\<open>False\<close> are the numbers 1 and 0, and
  numbers compare by value; \<^verbatim>\<open>None\<close> and strings equal only themselves; lists are
  equal when they are equal item by item; dictionaries are equal when they have the
  same number of keys and every key of the one has an equal value in the other.
\<close>

fun num_of :: "jval \<Rightarrow> real option" where
  "num_of (JBool b) = Some (if b then 1 else 0)"
| "num_of (JNum x) = Some x"
| "num_of v = None"

function py_eq :: "jval \<Rightarrow> jval \<Rightarrow> bool" where
  "py_eq JNull b = (b = JNull)"
| "py_eq (JBool x) b = (num_of b = Some (if x then 1 else 0))"
| "py_eq (JNum x) b = (num_of b = Some x)"
| "py_eq (JStr s) b = (b = JStr s)"
| "py_eq (JList xs) b = (case b of JList ys \<Rightarrow> list_all2 py_eq xs ys | _ \<Rightarrow> False)"
| "py_eq (JDict d) b =
     (case b of
        JDict e \<Rightarrow>
          length d = length e
          \<and> list_all (\<lambda>kv. list_ex (\<lambda>kw. fst kw = fst kv \<and> py_eq (snd kv) (snd kw)) e) d
      | _ \<Rightarrow> False)"
  by pat_completeness auto
termination
proof (relation "measure (\<lambda>(a, b). size a)", goal_cases)
  case 1
  show ?case by simp
next
  case (2 xs b ys x y)
  then have "size x < Suc (size_list size xs)"
    by (induction xs) auto
  then show ?case by simp
next
  case (3 d b e kv kw)
  have "size (snd kv) \<le> size_prod (\<lambda>x. 0) size kv"
    by (cases kv) simp
  moreover from 3 have "size_prod (\<lambda>x. 0) size kv \<le> size_list (size_prod (\<lambda>x. 0) size) d"
    by (induction d) auto
  ultimately show ?case by simp
qed

text \<open>\<^verbatim>\<open>x in s\<close> and \<^verbatim>\<open>s.add(x)\<close> for an \<open>x\<close> that can be hashed, under an equality \<open>eq\<close>.\<close>

definition py_in :: "('a \<Rightarrow> 'a \<Rightarrow> bool) \<Rightarrow> 'a \<Rightarrow> 'a list \<Rightarrow> bool" where
  "py_in eq x xs = list_ex (eq x) xs"

definition set_add :: "('a \<Rightarrow> 'a \<Rightarrow> bool) \<Rightarrow> 'a \<Rightarrow> 'a list \<Rightarrow> 'a list" where
  "set_add eq x xs = (if py_in eq x xs then xs else xs @ [x])"

text \<open>Tuples \<^verbatim>\<open>(tag, value)\<close> are equal when both components are.\<close>

definition pair_eq :: "string \<times> jval \<Rightarrow> string \<times> jval \<Rightarrow> bool" where
  "pair_eq a b = (fst a = fst b \<and> py_eq (snd a) (snd b))"

record or_set = crdt +
  elements :: "(string \<times> (string \<times> jval) list) list"
  removed_tags :: "jval list"

definition ORSet :: "string \<Rightarrow> or_set" where
  "ORSet n =
     \<lparr>node_id = n, operations = [], version_vector = [], elements = [], removed_tags = []\<rparr>"

definition bucket :: "or_set \<Rightarrow> string \<Rightarrow> (string \<times> jval) list" where
  "bucket s h = (case map_of (elements s) h of None \<Rightarrow> [] | Some b \<Rightarrow> b)"

text \<open>
  A method that raises has still changed the object up to the statement that
  raised, and the object stays in use. The methods below return the set as the call
  leaves it together with the outcome of the call: \<open>Inl\<close> the exception, \<open>Inr\<close> the
  returned value.

  \<^verbatim>\<open>_apply_add\<close>: a bucket is created for a hash that has none; then the pair
  \<^verbatim>\<open>(tag, value)\<close> goes into the bucket, which raises TypeError for a value that
  cannot be hashed.
\<close>

definition apply_add :: "(jval \<Rightarrow> string) \<Rightarrow> or_set \<Rightarrow> operation \<Rightarrow> or_set \<times> (error + unit)" where
  "apply_add H s op =
     (let v = op_value op; value_hash = H v; tag = op_id op;
          s1 = (if map_of (elements s) value_hash = None
                then s\<lparr>elements := AList.update value_hash [] (elements s)\<rparr> else s)
      in if \<not> hashable v then (s1, Inl TypeError)
         else (s1\<lparr>elements :=
                     AList.update value_hash (set_add pair_eq (tag, v) (bucket s1 value_hash))
                       (elements s1)\<rparr>, Inr ()))"

text \<open>
  \<^verbatim>\<open>_apply_remove\<close>: \<^verbatim>\<open>tags = op.value.get("tags", [])\<close>, then the loop adds tag after
  tag to \<^verbatim>\<open>_removed_tags\<close>. Only a dictionary has \<^verbatim>\<open>get\<close>; a list iterates over its
  items, a string over its characters, a dictionary over its keys, and nothing else
  iterates. The loop stops with TypeError at the first tag that cannot be hashed;
  the tags before it have been added.
\<close>

fun py_iter :: "jval \<Rightarrow> error + jval list" where
  "py_iter (JList xs) = Inr xs"
| "py_iter (JStr s) = Inr (map (\<lambda>c. JStr [c]) s)"
| "py_iter (JDict d) = Inr (map (\<lambda>(k, v). JStr k) d)"
| "py_iter v = Inl TypeError"

fun remove_tags :: "jval \<Rightarrow> error + jval list" where
  "remove_tags (JDict d) = (case map_of d ''tags'' of None \<Rightarrow> Inr [] | Some ts \<Rightarrow> py_iter ts)"
| "remove_tags v = Inl AttributeError"

fun add_tags :: "jval list \<Rightarrow> jval list \<Rightarrow> jval list \<times> (error + unit)" where
  "add_tags removed [] = (removed, Inr ())"
| "add_tags removed (tag # tags) =
     (if hashable tag then add_tags (set_add py_eq tag removed) tags
      else (removed, Inl TypeError))"

definition apply_remove :: "or_set \<Rightarrow> operation \<Rightarrow> or_set \<times> (error + unit)" where
  "apply_remove s op =
     (case remove_tags (op_value op) of
        Inl e \<Rightarrow> (s, Inl e)
      | Inr tags \<Rightarrow>
          (case add_tags (removed_tags s) tags of
             (removed, outcome) \<Rightarrow> (s\<lparr>removed_tags := removed\<rparr>, outcome)))"

text \<open>
  \<^verbatim>\<open>ORSet.apply\<close>: an operation whose id is in the log is ignored; the operation is
  recorded only when \<^verbatim>\<open>_apply_add\<close> or \<^verbatim>\<open>_apply_remove\<close> has returned.
\<close>

definition apply_os :: "(jval \<Rightarrow> string) \<Rightarrow> or_set \<Rightarrow> operation \<Rightarrow> or_set \<times> (error + bool)" where
  "apply_os H s op =
     (if has_seen s op then (s, Inr False)
      else if op_type op = ''add'' then
        (case apply_add H s op of
           (s', Inl e) \<Rightarrow> (s', Inl e)
         | (s', Inr u) \<Rightarrow> (record_operation s' op, Inr True))
      else if op_type op = ''remove'' then
        (case apply_remove s op of
           (s', Inl e) \<Rightarrow> (s', Inl e)
         | (s', Inr u) \<Rightarrow> (record_operation s' op, Inr True))
      else (s, Inl ValueError))"

text \<open>
  \<^verbatim>\<open>apply\<close> called with one operation after the other on the same set, by a caller
  that catches what a call raises. The result is the set after the last call and,
  for every operation, the outcome of its call.
\<close>

fun apply_all_os :: "(jval \<Rightarrow> string) \<Rightarrow> or_set \<Rightarrow> operation list \<Rightarrow> or_set \<times> (operation \<times> (error + bool)) list" where
  "apply_all_os H s [] = (s, [])"
| "apply_all_os H s (op # ops) =
     (case apply_os H s op of
        (s', outcome) \<Rightarrow>
          (case apply_all_os H s' ops of (s'', calls) \<Rightarrow> (s'', (op, outcome) # calls)))"

text \<open>
  \<^verbatim>\<open>ORSet.add\<close> and \<^verbatim>\<open>ORSet.remove\<close> on the local replica; a remove carries the tags of
  the value that the replica holds and has not seen removed.
\<close>

definition add_os :: "(jval \<Rightarrow> string) \<Rightarrow> or_set \<Rightarrow> jval \<Rightarrow> string \<Rightarrow> real \<Rightarrow> or_set \<times> (error + operation)" where
  "add_os H s v uuid4 now =
     (let op = create (node_id s) [] ''add'' v uuid4 now
      in case apply_os H s op of
           (s', Inl e) \<Rightarrow> (s', Inl e)
         | (s', Inr applied) \<Rightarrow> (s', Inr op))"

definition observed_tags :: "(jval \<Rightarrow> string) \<Rightarrow> ((string \<times> jval) list \<Rightarrow> (string \<times> jval) list) \<Rightarrow> or_set \<Rightarrow> jval \<Rightarrow> string list" where
  "observed_tags H order s v =
     map fst (filter (\<lambda>(tag, w). \<not> py_in py_eq (JStr tag) (removed_tags s))
                (order (bucket s (H v))))"

definition remove_os :: "(jval \<Rightarrow> string) \<Rightarrow> ((string \<times> jval) list \<Rightarrow> (string \<times> jval) list) \<Rightarrow> or_set \<Rightarrow> jval \<Rightarrow> string \<Rightarrow> real \<Rightarrow> or_set \<times> (error + operation)" where
  "remove_os H order s v uuid4 now =
     (let op = create (node_id s) [] ''remove''
                 (JDict [(''element'', v), (''tags'', JList (map JStr (observed_tags H order s v)))])
                 uuid4 now
      in case apply_os H s op of
           (s', Inl e) \<Rightarrow> (s', Inl e)
         | (s', Inr applied) \<Rightarrow> (s', Inr op))"

text \<open>
  \<^verbatim>\<open>ORSet.value\<close>: from each bucket the first pair whose tag is not removed gives its
  value to the result, a Python set. \<^verbatim>\<open>result.add(val)\<close> raises TypeError for a value
  that cannot be hashed; the handler then adds it again unless the result holds an
  equal value, and that second \<^verbatim>\<open>add\<close> raises for good.
\<close>

definition first_live :: "jval list \<Rightarrow> (string \<times> jval) list \<Rightarrow> jval option" where
  "first_live removed tagged_values =
     (case filter (\<lambda>(tag, val). \<not> py_in py_eq (JStr tag) removed) tagged_values of
        [] \<Rightarrow> None
      | (tag, val) # rest \<Rightarrow> Some val)"

fun value_loop_os :: "((string \<times> jval) list \<Rightarrow> (string \<times> jval) list) \<Rightarrow> jval list \<Rightarrow> (string \<times> (string \<times> jval) list) list \<Rightarrow> jval list \<Rightarrow> error + jval list" where
  "value_loop_os order removed [] result = Inr result"
| "value_loop_os order removed ((value_hash, tagged_values) # rest) result =
     (case first_live removed (order tagged_values) of
        None \<Rightarrow> value_loop_os order removed rest result
      | Some val \<Rightarrow>
          if hashable val then value_loop_os order removed rest (set_add py_eq val result)
          else if py_in py_eq val result then value_loop_os order removed rest result
          else Inl TypeError)"

definition value_os :: "((string \<times> jval) list \<Rightarrow> (string \<times> jval) list) \<Rightarrow> or_set \<Rightarrow> error + jval list" where
  "value_os order s = value_loop_os order (removed_tags s) (elements s) []"

text \<open>
  The tags that the calls of a run may have put into \<^verbatim>\<open>_removed_tags\<close>: those carried
  by a remove operation that \<^verbatim>\<open>apply\<close> did not ignore (it returned true or raised).
\<close>

definition carried_tags :: "(operation \<times> (error + bool)) list \<Rightarrow> jval set" where
  "carried_tags calls =
     {t. \<exists>r outcome tags. (r, outcome) \<in> set calls \<and> outcome \<noteq> Inr False
           \<and> op_type r = ''remove'' \<and> remove_tags (op_value r) = Inr tags \<and> t \<in> set tags}"

text \<open>
  What holds of every set reached by calls of \<^verbatim>\<open>apply\<close> on an empty one, for a set \<open>T\<close>
  of tags that covers the removed ones: a stored pair sits in the bucket of its
  value's hash, has a hashable value and comes from an add operation of the log;
  every add operation of the log has its pair stored.
\<close>

definition os_inv :: "(jval \<Rightarrow> string) \<Rightarrow> jval set \<Rightarrow> or_set \<Rightarrow> bool" where
  "os_inv H T s \<longleftrightarrow>
     distinct (map fst (elements s))
     \<and> set (removed_tags s) \<subseteq> T
     \<and> (\<forall>h b t w. map_of (elements s) h = Some b \<and> (t, w) \<in> set b \<longrightarrow>
           H w = h \<and> hashable w
           \<and> (\<exists>c \<in> set (operations s). op_type c = ''add'' \<and> op_id c = t \<and> op_value c = w))
     \<and> (\<forall>c \<in> set (operations s). op_type c = ''add'' \<longrightarrow>
           (op_id c, op_value c) \<in> set (bucket s (H (op_value c))))"

section \<open>Concrete states and inputs used below\<close>

definition demo_register :: lww_register where
  "demo_register = LWWRegister ''a'' JNull"

definition demo_set_op :: operation where
  "demo_set_op =
     \<lparr>op_id = ''o2'', op_timestamp = 5, op_node_id = ''b'', op_path = [''x''],
      op_type = ''set'', op_value = JNum 2\<rparr>"

definition demo_map :: lww_map where
  "demo_map =
     \<lparr>node_id = ''a'',
      operations = [\<lparr>op_id = ''o1'', op_timestamp = 5, op_node_id = ''a'', op_path = [''x''],
                      op_type = ''set'', op_value = JNum 1\<rparr>],
      version_vector = [(''a'', 5)],
      entries = [([''x''], (JNum 1, 5, ''a''))],
      tombstones = []\<rparr>"

text \<open>An operation as a client or a replica would build it.\<close>

definition mk_op :: "string \<Rightarrow> real \<Rightarrow> string \<Rightarrow> path \<Rightarrow> string \<Rightarrow> jval \<Rightarrow> operation" where
  "mk_op i t n p ty v =
     \<lparr>op_id = i, op_timestamp = t, op_node_id = n, op_path = p, op_type = ty, op_value = v\<rparr>"

text \<open>
  A set of \<open>x\<close> whose value is a dictionary, with a (timestamp, origin) pair above the
  one \<open>demo_map\<close> holds at \<open>x\<close>.
\<close>

definition demo_dict_op :: operation where
  "demo_dict_op =
     mk_op ''o3'' 9 ''b'' [''x''] ''set''
       (JDict [(''k'', JNum 2), (''l'', JDict [(''j'', JStr ''s'')])])"

text \<open>
  Two operations applied to an empty map: a set of \<open>c\<close>, and a delete of \<open>c\<close> with the
  timestamp of the set and a greater origin.
\<close>

definition tie_ops :: "operation list" where
  "tie_ops =
     [mk_op ''o1'' 5 ''a-node'' [''c''] ''set'' (JNum 2),
      mk_op ''o2'' 5 ''z'' [''c''] ''delete'' JNull]"

definition tie_map :: lww_map where
  "tie_map =
     \<lparr>node_id = ''s'',
      operations = tie_ops,
      version_vector = [(''a-node'', 5), (''z'', 5)],
      entries = [([''c''], (JNum 2, 5, ''a-node''))],
      tombstones = [([''c''], (5, ''z''))]\<rparr>"

text \<open>A set at \<open>d\<close> followed by a later delete of \<open>d\<close>, and a set at \<open>e\<close>.\<close>

definition deleted_ops :: "operation list" where
  "deleted_ops =
     [mk_op ''o1'' 1 ''n'' [''d''] ''set'' (JNum 1),
      mk_op ''o2'' 2 ''n'' [''d''] ''delete'' JNull,
      mk_op ''o3'' 3 ''n'' [''e'', ''f''] ''set'' (JStr ''x'')]"

definition deleted_map :: lww_map where
  "deleted_map =
     \<lparr>node_id = ''s'',
      operations = deleted_ops,
      version_vector = [(''n'', 3)],
      entries = [([''d''], (JNum 1, 1, ''n'')), ([''e'', ''f''], (JStr ''x'', 3, ''n''))],
      tombstones = [([''d''], (2, ''n''))]\<rparr>"

text \<open>A child entry stored before, and after, a scalar at its parent path.\<close>

definition child_then_scalar :: "operation list" where
  "child_then_scalar =
     [mk_op ''o1'' 1 ''n'' [''a'', ''b''] ''set'' (JNum 1),
      mk_op ''o2'' 2 ''n'' [''a''] ''set'' (JNum 2)]"

definition scalar_then_child :: "operation list" where
  "scalar_then_child =
     [mk_op ''o2'' 2 ''n'' [''a''] ''set'' (JNum 2),
      mk_op ''o1'' 1 ''n'' [''a'', ''b''] ''set'' (JNum 1)]"

text \<open>
  A server with one room \<open>r\<close> that two users have joined, on WebSockets 11 and 12; no
  auth provider, no permission manager, no storage.
\<close>

definition alice :: user where
  "alice = \<lparr>user_id = ''u1'', user_name = ''Alice'', user_metadata = []\<rparr>"

definition bob :: user where
  "bob = \<lparr>user_id = ''u2'', user_name = ''Bob'', user_metadata = []\<rparr>"

definition demo_room :: room where
  "demo_room = (Room ''r'' None None)\<lparr>connections := [(''u1'', (alice, 11)), (''u2'', (bob, 12))]\<rparr>"

definition demo_manager :: room_manager where
  "demo_manager =
     \<lparr>rooms = [(''r'', demo_room)],
      global_functions = [(''f'', \<lparr>rf_name = ''f'', rf_func = 0, rf_requires_auth = True,
                                    rf_required_permissions = []\<rparr>)],
      on_room_created = [7],
      on_room_deleted = []\<rparr>"

definition demo_server :: server where
  "demo_server =
     (CollabkitServer None None False False DEFAULT_RATE_LIMIT MAX_CONNECTIONS_PER_USER)
       \<lparr>srv_rooms := demo_manager,
        ws_users := [(11, User alice), (12, User bob)],
        user_connections := [(''u1'', {11}), (''u2'', {12})]\<rparr>"

text \<open>An operation message whose client timestamp lies far in the future.\<close>

definition future_op :: op_dict where
  "future_op =
     \<lparr>d_id = Some ''c1'', d_timestamp = Some 99999, d_node_id = Some ''u1'',
      d_path = Some [''x''], d_op_type = Some ''set'', d_value = Some (JNum 1)\<rparr>"

text \<open>
  A server with an auth provider that accepts the token \<open>good\<close> only, and attempts
  on WebSocket 11: five with bad tokens, then two that fall within 300 seconds of
  the fifth failure.
\<close>

definition carol :: auth_user where
  "carol = \<lparr>au_id = ''u3'', au_name = ''Carol'', au_email = None, au_roles = [],
            au_metadata = []\<rparr>"

definition demo_validate_token :: "string \<Rightarrow> auth_user option" where
  "demo_validate_token token = (if token = ''good'' then Some carol else None)"

definition auth_server :: server where
  "auth_server =
     CollabkitServer (Some demo_validate_token) None False False DEFAULT_RATE_LIMIT
       MAX_CONNECTIONS_PER_USER"

definition five_bad :: "auth_attempt list" where
  "five_bad =
     [ViaAuth ''b1'' 1 1, ViaAuth ''b2'' 2 2, ViaJoin ''b3'' 3 3, ViaAuth ''b4'' 4 4,
      ViaAuth ''b5'' 5 5]"

definition during_lockout :: "auth_attempt list" where
  "during_lockout = [ViaAuth ''good'' 100 100, ViaJoin ''b6'' 304 304]"

text \<open>
  Replica A adds \<open>x\<close> (tag \<open>a1\<close>). Replica B, which has not seen that add, adds \<open>x\<close>
  itself (tag \<open>b1\<close>) and removes it, observing \<open>b1\<close> only. A third replica receives
  the remove first, and with it a remove whose tag list has an item that cannot be
  hashed and an add of a list. The stand-in for the hash sends a string to itself.
\<close>

definition demo_hash :: "jval \<Rightarrow> string" where
  "demo_hash v = (case v of JStr s \<Rightarrow> s | _ \<Rightarrow> ''?'')"

definition concurrent_ops :: "operation list" where
  "concurrent_ops =
     [mk_op ''b2'' 3 ''B'' [] ''remove''
        (JDict [(''element'', JStr ''x''), (''tags'', JList [JStr ''b1''])]),
      mk_op ''b3'' 4 ''B'' [] ''remove''
        (JDict [(''element'', JStr ''y''), (''tags'', JList [JStr ''b0'', JList []])]),
      mk_op ''b4'' 5 ''B'' [] ''add'' (JList []),
      mk_op ''b1'' 2 ''B'' [] ''add'' (JStr ''x''),
      mk_op ''a1'' 1 ''A'' [] ''add'' (JStr ''x'')]"

text \<open>
  Two adds and no remove, under a stand-in for the hash that looks at the first
  character of a string only, so that both values fall into one bucket.
\<close>

definition colliding_hash :: "jval \<Rightarrow> string" where
  "colliding_hash v = (case v of JStr s \<Rightarrow> take 1 s | _ \<Rightarrow> ''?'')"

definition colliding_ops :: "operation list" where
  "colliding_ops =
     [mk_op ''a1'' 1 ''A'' [] ''add'' (JStr ''xa''),
      mk_op ''a2'' 2 ''A'' [] ''add'' (JStr ''xb'')]"

text \<open>
  Two runs of the receive loop of a new connection; all clock readings are floats
  from \<open>2^30\<close> (10 January 2004) on. In the first a frame comes half a second after the
  gate, the next wait times out, and a frame comes at once after the third gate. In
  the second a frame is there at once at each of a hundred gate calls with one
  clock reading, and at the gate calls 1/64 s and 1/32 s later.
\<close>

definition quiet_loop :: "(real \<times> real \<times> real option) list" where
  "quiet_loop =
     [(1073741824, 1073741824, Some (1073741824 + 1 / 2)),
      (1073741824 + 1 / 2, 1073741824 + 1 / 2, None),
      (1073741824 + 1, 1073741824 + 1, Some (1073741824 + 1))]"

definition burst :: "(real \<times> real \<times> real option) list" where
  "burst =
     replicate 100 (1073741824, 1073741824, Some 1073741824)
     @ [(1073741824 + 1 / 64, 1073741824 + 1 / 64, Some (1073741824 + 1 / 64)),
        (1073741824 + 1 / 32, 1073741824 + 1 / 32, Some (1073741824 + 1 / 32))]"
section \<open>The last-writer-wins rule\<close>

lemma is_newer_lex: "is_newer t1 n1 t2 n2 \<longleftrightarrow> (t2, n2) < (t1, n1)"
  by (auto simp: is_newer_def)

lemma tv_gt_lex:
  "tv_gt a b \<longleftrightarrow> (tv_timestamp b, tv_node_id b) < (tv_timestamp a, tv_node_id a)"
  by (auto simp: tv_gt_def)

lemma map_of_store_if_newer:
  "map_of (store_if_newer es p v t n) q =
     (if q = p then
        (case map_of es p of
           None \<Rightarrow> Some (v, t, n)
         | Some (v0, t0, n0) \<Rightarrow> if (t0, n0) < (t, n) then Some (v, t, n) else Some (v0, t0, n0))
      else map_of es q)"
  by (auto simp: store_if_newer_def is_newer_lex update_conv' split: option.splits)

text \<open>
  A dictionary value is flattened: each of its leaves goes through the same guarded
  store, at the operation's path extended by the leaf's keys.
\<close>

lemma flatten_set_leaves:
  "flatten_set es p kvs t n
     = fold (\<lambda>(q, v) es. store_if_newer es q v t n) (leaves p kvs) es"
proof (induction es p kvs t n rule: flatten_set.induct)
  case (1 es p t n)
  then show ?case by simp
next
  case (2 es p k v kvs t n)
  then show ?case
    by (cases v) simp_all
qed

text \<open>Every leaf of a dictionary lies strictly below the path it is flattened at.\<close>

lemma leaves_strict:
  "\<forall>x \<in> set (leaves p kvs). strict_prefix p (fst x)"
proof (induction p kvs rule: leaves.induct)
  case (1 p)
  then show ?case by simp
next
  case (2 p k v kvs)
  have tl: "\<forall>x \<in> set (leaves p kvs). strict_prefix p (fst x)"
    by (rule "2.IH"(2))
  have hd: "\<forall>x \<in> set (case v of JDict d \<Rightarrow> leaves (p @ [k]) d | _ \<Rightarrow> [(p @ [k], v)]).
              strict_prefix p (fst x)"
  proof (cases v)
    case (JDict d)
    have "\<forall>x \<in> set (leaves (p @ [k]) d). strict_prefix (p @ [k]) (fst x)"
      by (rule "2.IH"(1) [OF JDict])
    then have "\<forall>x \<in> set (leaves (p @ [k]) d). strict_prefix p (fst x)"
      by (auto simp: strict_prefix_def prefix_def)
    with JDict show ?thesis by simp
  qed (simp_all add: strict_prefix_def)
  from hd tl show ?case by auto
qed

lemma map_of_leaves_self: "map_of (leaves p kvs) p = None"
  using leaves_strict [of p kvs] by (force simp: map_of_eq_None_iff)

text \<open>
  A run of guarded stores with one (timestamp, origin) pair: a path that occurs in
  the run is decided by the lexicographic rule, with the first value the run has
  for it; every other path keeps what it had.
\<close>

lemma map_of_fold_store:
  "map_of (fold (\<lambda>(q, v) es. store_if_newer es q v t n) xs es) q =
     (case map_of xs q of
        None \<Rightarrow> map_of es q
      | Some v \<Rightarrow>
          (case map_of es q of
             None \<Rightarrow> Some (v, t, n)
           | Some (v0, t0, n0) \<Rightarrow> if (t0, n0) < (t, n) then Some (v, t, n) else Some (v0, t0, n0)))"
proof (induction xs arbitrary: es)
  case Nil
  then show ?case by simp
next
  case (Cons x xs)
  obtain q1 v1 where x: "x = (q1, v1)" by (cases x)
  show ?case
    unfolding x
    by (simp add: Cons.IH map_of_store_if_newer split: option.splits)
qed

text \<open>
  C5 (as the code has it). Applying a set operation that has not been applied
  before (\<open>apply\<close> ignores an operation whose id is in the log) decides by the
  lexicographic order on (timestamp, origin) pairs, strings compared by character
  code:

    \<^item> for the register, \<open>current\<close> is replaced by the incoming triple exactly when the
      incoming pair is greater than the stored pair, and kept otherwise;

    \<^item> for the map and a value that is not a dictionary, the entry at the operation's
      path is replaced exactly when the incoming pair is greater than the stored pair,
      and kept otherwise; a path with no entry takes the incoming triple; every other
      entry is kept;

    \<^item> for the map and a dictionary value, the entry at the operation's own path is
      kept, whatever the pairs are; every leaf of the dictionary is stored at the
      operation's path extended by the leaf's keys, each under the same rule against
      the entry stored at that leaf path; every entry at a path that is not a leaf
      path is kept.

  Tombstones are not touched by a set.
\<close>

theorem lww_set_replaces_iff_greater:
  "(\<not> has_seen r op \<and> op_type op = ''set'' \<longrightarrow>
      (\<exists>r'. apply_reg r op = Inr (r', True) \<and>
         current r' =
           (if (tv_timestamp (current r), tv_node_id (current r)) < (op_timestamp op, op_node_id op)
            then \<lparr>tv_value = op_value op, tv_timestamp = op_timestamp op,
                  tv_node_id = op_node_id op\<rparr>
            else current r)))
   \<and> (\<not> has_seen m op \<and> op_type op = ''set'' \<and> \<not> is_dict (op_value op) \<longrightarrow>
      (\<exists>m'. apply_lm m op = Inr (m', True) \<and>
         tombstones m' = tombstones m \<and>
         (\<forall>q. q \<noteq> op_path op \<longrightarrow> map_of (entries m') q = map_of (entries m) q) \<and>
         map_of (entries m') (op_path op) =
           (case map_of (entries m) (op_path op) of
              None \<Rightarrow> Some (op_value op, op_timestamp op, op_node_id op)
            | Some (v0, t0, n0) \<Rightarrow>
                if (t0, n0) < (op_timestamp op, op_node_id op)
                then Some (op_value op, op_timestamp op, op_node_id op)
                else Some (v0, t0, n0))))
   \<and> (\<not> has_seen m op \<and> op_type op = ''set'' \<and> op_value op = JDict d \<longrightarrow>
      (\<exists>m'. apply_lm m op = Inr (m', True) \<and>
         tombstones m' = tombstones m \<and>
         map_of (entries m') (op_path op) = map_of (entries m) (op_path op) \<and>
         (\<forall>q. map_of (entries m') q =
            (case map_of (leaves (op_path op) d) q of
               None \<Rightarrow> map_of (entries m) q
             | Some v \<Rightarrow>
                 (case map_of (entries m) q of
                    None \<Rightarrow> Some (v, op_timestamp op, op_node_id op)
                  | Some (v0, t0, n0) \<Rightarrow>
                      if (t0, n0) < (op_timestamp op, op_node_id op)
                      then Some (v, op_timestamp op, op_node_id op)
                      else Some (v0, t0, n0))))))"
proof (intro conjI impI)
  assume a: "\<not> has_seen r op \<and> op_type op = ''set''"
  then show "\<exists>r'. apply_reg r op = Inr (r', True) \<and>
         current r' =
           (if (tv_timestamp (current r), tv_node_id (current r)) < (op_timestamp op, op_node_id op)
            then \<lparr>tv_value = op_value op, tv_timestamp = op_timestamp op,
                  tv_node_id = op_node_id op\<rparr>
            else current r)"
    by (simp add: apply_reg_def Let_def tv_gt_lex new_value_def record_operation_def)
next
  assume a: "\<not> has_seen m op \<and> op_type op = ''set'' \<and> \<not> is_dict (op_value op)"
  then have nd: "apply_set (entries m) (op_path op) (op_value op) (op_timestamp op) (op_node_id op)
      = store_if_newer (entries m) (op_path op) (op_value op) (op_timestamp op) (op_node_id op)"
    by (cases "op_value op") (simp_all add: apply_set_def)
  from a show "\<exists>m'. apply_lm m op = Inr (m', True) \<and>
         tombstones m' = tombstones m \<and>
         (\<forall>q. q \<noteq> op_path op \<longrightarrow> map_of (entries m') q = map_of (entries m) q) \<and>
         map_of (entries m') (op_path op) =
           (case map_of (entries m) (op_path op) of
              None \<Rightarrow> Some (op_value op, op_timestamp op, op_node_id op)
            | Some (v0, t0, n0) \<Rightarrow>
                if (t0, n0) < (op_timestamp op, op_node_id op)
                then Some (op_value op, op_timestamp op, op_node_id op)
                else Some (v0, t0, n0))"
    by (simp add: apply_lm_def nd record_operation_def map_of_store_if_newer)
next
  assume a: "\<not> has_seen m op \<and> op_type op = ''set'' \<and> op_value op = JDict d"
  define es' where
    "es' = fold (\<lambda>(q, v) es. store_if_newer es q v (op_timestamp op) (op_node_id op))
             (leaves (op_path op) d) (entries m)"
  from a have fl: "apply_set (entries m) (op_path op) (op_value op) (op_timestamp op) (op_node_id op)
      = es'"
    by (simp add: apply_set_def flatten_set_leaves es'_def)
  have own: "map_of es' (op_path op) = map_of (entries m) (op_path op)"
    unfolding es'_def by (simp add: map_of_fold_store map_of_leaves_self)
  have each: "map_of es' q =
            (case map_of (leaves (op_path op) d) q of
               None \<Rightarrow> map_of (entries m) q
             | Some v \<Rightarrow>
                 (case map_of (entries m) q of
                    None \<Rightarrow> Some (v, op_timestamp op, op_node_id op)
                  | Some (v0, t0, n0) \<Rightarrow>
                      if (t0, n0) < (op_timestamp op, op_node_id op)
                      then Some (v, op_timestamp op, op_node_id op)
                      else Some (v0, t0, n0)))" for q
    unfolding es'_def by (rule map_of_fold_store)
  from a have ns: "\<not> has_seen m op" and ty: "op_type op = ''set''"
    by simp_all
  have ap: "apply_lm m op = Inr (record_operation (m\<lparr>entries := es'\<rparr>) op, True)"
    unfolding apply_lm_def fl using ns ty by simp
  show "\<exists>m'. apply_lm m op = Inr (m', True) \<and>
         tombstones m' = tombstones m \<and>
         map_of (entries m') (op_path op) = map_of (entries m) (op_path op) \<and>
         (\<forall>q. map_of (entries m') q =
            (case map_of (leaves (op_path op) d) q of
               None \<Rightarrow> map_of (entries m) q
             | Some v \<Rightarrow>
                 (case map_of (entries m) q of
                    None \<Rightarrow> Some (v, op_timestamp op, op_node_id op)
                  | Some (v0, t0, n0) \<Rightarrow>
                      if (t0, n0) < (op_timestamp op, op_node_id op)
                      then Some (v, op_timestamp op, op_node_id op)
                      else Some (v0, t0, n0))))"
  proof (intro exI conjI allI)
    show "apply_lm m op = Inr (record_operation (m\<lparr>entries := es'\<rparr>) op, True)"
      by (rule ap)
    show "tombstones (record_operation (m\<lparr>entries := es'\<rparr>) op) = tombstones m"
      by (simp add: record_operation_def)
    show "map_of (entries (record_operation (m\<lparr>entries := es'\<rparr>) op)) (op_path op)
            = map_of (entries m) (op_path op)"
      by (simp add: record_operation_def own)
    show "map_of (entries (record_operation (m\<lparr>entries := es'\<rparr>) op)) q =
            (case map_of (leaves (op_path op) d) q of
               None \<Rightarrow> map_of (entries m) q
             | Some v \<Rightarrow>
                 (case map_of (entries m) q of
                    None \<Rightarrow> Some (v, op_timestamp op, op_node_id op)
                  | Some (v0, t0, n0) \<Rightarrow>
                      if (t0, n0) < (op_timestamp op, op_node_id op)
                      then Some (v, op_timestamp op, op_node_id op)
                      else Some (v0, t0, n0)))" for q
      using each [of q] by (simp add: record_operation_def)
  qed
qed

theorem lww_set_replaces_iff_greater_witness:
  "(\<not> has_seen demo_register demo_set_op \<and> op_type demo_set_op = ''set'')
   \<and> (\<exists>r'. apply_reg demo_register demo_set_op = Inr (r', True) \<and>
          current r' = \<lparr>tv_value = JNum 2, tv_timestamp = 5, tv_node_id = ''b''\<rparr>)
   \<and> (\<not> has_seen demo_map demo_set_op \<and> op_type demo_set_op = ''set''
        \<and> \<not> is_dict (op_value demo_set_op))
   \<and> (\<exists>m'. apply_lm demo_map demo_set_op = Inr (m', True) \<and>
          map_of (entries m') [''x''] = Some (JNum 2, 5, ''b''))
   \<and> (\<not> has_seen demo_map demo_dict_op \<and> op_type demo_dict_op = ''set''
        \<and> op_value demo_dict_op = JDict [(''k'', JNum 2), (''l'', JDict [(''j'', JStr ''s'')])])
   \<and> (\<exists>m'. apply_lm demo_map demo_dict_op = Inr (m', True) \<and>
          map_of (entries m') [''x''] = Some (JNum 1, 5, ''a'') \<and>
          map_of (entries m') [''x'', ''k''] = Some (JNum 2, 9, ''b'') \<and>
          map_of (entries m') [''x'', ''l'', ''j''] = Some (JStr ''s'', 9, ''b''))"
proof -
  have h1: "\<not> has_seen demo_register demo_set_op \<and> op_type demo_set_op = ''set''"
    by (simp add: has_seen_def demo_register_def LWWRegister_def demo_set_op_def)
  have h2: "\<not> has_seen demo_map demo_set_op \<and> op_type demo_set_op = ''set''
        \<and> \<not> is_dict (op_value demo_set_op)"
    by (simp add: has_seen_def demo_map_def demo_set_op_def)
  have h3: "\<not> has_seen demo_map demo_dict_op \<and> op_type demo_dict_op = ''set''
        \<and> op_value demo_dict_op = JDict [(''k'', JNum 2), (''l'', JDict [(''j'', JStr ''s'')])]"
    by (simp add: has_seen_def demo_map_def demo_dict_op_def mk_op_def)
  have c1: "(tv_timestamp (current demo_register), tv_node_id (current demo_register))
              < (op_timestamp demo_set_op, op_node_id demo_set_op)"
    by (simp add: demo_register_def LWWRegister_def demo_set_op_def)
  have c2: "map_of (entries demo_map) (op_path demo_set_op) = Some (JNum 1, 5, ''a'')"
    by (simp add: demo_map_def demo_set_op_def)
  have c3: "((5::real), ''a'') < (op_timestamp demo_set_op, op_node_id demo_set_op)"
    by (simp add: demo_set_op_def)
  note scalar = lww_set_replaces_iff_greater
                  [where r = demo_register and op = demo_set_op and m = demo_map and d = "[]"]
  note dict = lww_set_replaces_iff_greater
                [where r = demo_register and op = demo_dict_op and m = demo_map
                   and d = "[(''k'', JNum 2), (''l'', JDict [(''j'', JStr ''s'')])]"]
  from scalar [THEN conjunct1] h1 c1
  obtain r' where
    r: "apply_reg demo_register demo_set_op = Inr (r', True)"
       "current r' = \<lparr>tv_value = op_value demo_set_op, tv_timestamp = op_timestamp demo_set_op,
                       tv_node_id = op_node_id demo_set_op\<rparr>"
    by auto
  from scalar [THEN conjunct2, THEN conjunct1] h2 c2 c3
  obtain m' where
    m: "apply_lm demo_map demo_set_op = Inr (m', True)"
       "map_of (entries m') (op_path demo_set_op)
          = Some (op_value demo_set_op, op_timestamp demo_set_op, op_node_id demo_set_op)"
    by auto
  from dict [THEN conjunct2, THEN conjunct2] h3
  obtain m'' where
    d: "apply_lm demo_map demo_dict_op = Inr (m'', True)"
       "map_of (entries m'') (op_path demo_dict_op) = map_of (entries demo_map) (op_path demo_dict_op)"
       "\<And>q. map_of (entries m'') q =
            (case map_of (leaves (op_path demo_dict_op)
                            [(''k'', JNum 2), (''l'', JDict [(''j'', JStr ''s'')])]) q of
               None \<Rightarrow> map_of (entries demo_map) q
             | Some v \<Rightarrow>
                 (case map_of (entries demo_map) q of
                    None \<Rightarrow> Some (v, op_timestamp demo_dict_op, op_node_id demo_dict_op)
                  | Some (v0, t0, n0) \<Rightarrow>
                      if (t0, n0) < (op_timestamp demo_dict_op, op_node_id demo_dict_op)
                      then Some (v, op_timestamp demo_dict_op, op_node_id demo_dict_op)
                      else Some (v0, t0, n0)))"
    by blast
  have d1: "map_of (entries m'') [''x''] = Some (JNum 1, 5, ''a'')"
    using d(2) by (simp add: demo_dict_op_def mk_op_def demo_map_def)
  have d2: "map_of (entries m'') [''x'', ''k''] = Some (JNum 2, 9, ''b'')"
    using d(3) [of "[''x'', ''k'']"] by (simp add: demo_dict_op_def mk_op_def demo_map_def)
  have d3: "map_of (entries m'') [''x'', ''l'', ''j''] = Some (JStr ''s'', 9, ''b'')"
    using d(3) [of "[''x'', ''l'', ''j'']"] by (simp add: demo_dict_op_def mk_op_def demo_map_def)
  from r m h1 h2 h3 d(1) d1 d2 d3 show ?thesis
    by (simp add: demo_set_op_def)
qed

text \<open>
  The rule as the specification words it, for every set operation, fails on a
  dictionary value: the map holds \<open>(1, 5, a)\<close> at \<open>x\<close>; a set of \<open>x\<close> that has not been
  applied before carries the greater pair \<open>(9, b)\<close> and a dictionary; the stored triple
  at \<open>x\<close> stays as it was.
\<close>

theorem dict_set_keeps_target_entry_counterexample:
  "\<not> has_seen demo_map demo_dict_op
   \<and> op_type demo_dict_op = ''set''
   \<and> op_path demo_dict_op = [''x'']
   \<and> map_of (entries demo_map) [''x''] = Some (JNum 1, 5, ''a'')
   \<and> ((5::real), ''a'') < (op_timestamp demo_dict_op, op_node_id demo_dict_op)
   \<and> (\<exists>m'. apply_lm demo_map demo_dict_op = Inr (m', True)
         \<and> map_of (entries m') [''x''] = Some (JNum 1, 5, ''a''))"
  by (simp add: has_seen_def demo_map_def demo_dict_op_def mk_op_def apply_lm_def apply_set_def
      store_if_newer_def is_newer_def record_operation_def vv_update_def)
section \<open>What value() shows\<close>

lemmas lm_eval =
  LWWMap_def mk_op_def apply_lm_def has_seen_def apply_set_def apply_delete_def
  store_if_newer_def is_newer_def record_operation_def vv_update_def value_lm_def hidden_def
  child_dict_def

lemma set_path_Cons:
  "set_path d (k # ks) v =
     (if ks = [] then AList.update k v d
      else AList.update k (JDict (set_path (child_dict d k) ks v)) d)"
  by (cases ks) simp_all

lemma lookup_path_Cons:
  "lookup_path d (k # ks) =
     (if ks = [] then map_of d k
      else (case map_of d k of Some (JDict c) \<Rightarrow> lookup_path c ks | _ \<Rightarrow> None))"
  by (cases ks) (simp_all cong: option.case_cong jval.case_cong)

lemma lookup_path_empty: "p \<noteq> [] \<Longrightarrow> lookup_path [] p = None"
  by (cases p) (simp_all add: lookup_path_Cons)

lemma lookup_child_dict:
  "ks \<noteq> [] \<Longrightarrow> lookup_path (child_dict d k) ks = lookup_path d (k # ks)"
  by (auto simp: lookup_path_Cons child_dict_def lookup_path_empty split: option.splits jval.splits)

lemma lookup_set_path_same: "p \<noteq> [] \<Longrightarrow> lookup_path (set_path d p v) p = Some v"
proof (induction p arbitrary: d)
  case Nil
  then show ?case by simp
next
  case (Cons k ks)
  show ?case
  proof (cases "ks = []")
    case True
    then show ?thesis by (simp add: update_conv')
  next
    case False
    with Cons.IH [of "child_dict d k"] show ?thesis
      by (simp add: set_path_Cons lookup_path_Cons update_conv')
  qed
qed

lemma lookup_set_path_other:
  "\<not> prefix q p \<Longrightarrow> \<not> prefix p q \<Longrightarrow> lookup_path (set_path d q w) p = lookup_path d p"
proof (induction q arbitrary: p d)
  case Nil
  then show ?case by simp
next
  case (Cons k ks)
  from Cons.prems obtain a p' where p: "p = a # p'"
    by (cases p) auto
  show ?case
  proof (cases "a = k")
    case False
    then show ?thesis
      by (simp add: p set_path_Cons lookup_path_Cons update_conv')
  next
    case True
    with Cons.prems p have inc: "\<not> prefix ks p'" "\<not> prefix p' ks"
      by auto
    then have ne: "ks \<noteq> []" "p' \<noteq> []"
      by auto
    have "lookup_path (set_path d (k # ks) w) (k # p')
            = lookup_path (set_path (child_dict d k) ks w) p'"
      using ne by (simp add: set_path_Cons lookup_path_Cons update_conv')
    also have "\<dots> = lookup_path (child_dict d k) p'"
      by (rule Cons.IH [OF inc])
    also have "\<dots> = lookup_path d (k # p')"
      using ne(2) by (rule lookup_child_dict)
    finally show ?thesis
      by (simp add: p True)
  qed
qed

lemma value_loop_lookup:
  assumes "distinct (map fst es)" and "p \<noteq> []"
    and "\<forall>q \<in> fst ` set es. q \<noteq> p \<and> q \<noteq> [] \<longrightarrow> \<not> prefix q p \<and> \<not> prefix p q"
  shows "lookup_path (value_loop tbs es acc) p =
           (case map_of es p of
              None \<Rightarrow> lookup_path acc p
            | Some (v, ts, n) \<Rightarrow> if hidden tbs p ts then lookup_path acc p else Some v)"
  using assms
proof (induction es arbitrary: acc)
  case Nil
  then show ?case by simp
next
  case (Cons e es)
  obtain q w t n where e: "e = (q, (w, t, n))"
    by (cases e) auto
  from Cons.prems have d: "distinct (map fst es)" and nq: "q \<notin> fst ` set es"
    and inc: "\<forall>q \<in> fst ` set es. q \<noteq> p \<and> q \<noteq> [] \<longrightarrow> \<not> prefix q p \<and> \<not> prefix p q"
    by (auto simp: e)
  note IH = Cons.IH [OF d Cons.prems(2) inc]
  show ?case
  proof (cases "q = p")
    case True
    with nq have "map_of es p = None"
      by (simp add: map_of_eq_None_iff)
    with True Cons.prems(2) show ?thesis
      by (simp add: e IH lookup_set_path_same)
  next
    case False
    have "lookup_path (set_path acc q w) p = lookup_path acc p"
    proof (cases "q = []")
      case True
      then show ?thesis by simp
    next
      case qne: False
      with False Cons.prems(3) have "\<not> prefix q p \<and> \<not> prefix p q"
        by (simp add: e)
      then show ?thesis
        by (simp add: lookup_set_path_other)
    qed
    with False show ?thesis
      by (simp add: e IH split: option.splits)
  qed
qed

text \<open>
  Applying operations keeps the keys of the entry dictionary distinct, as the keys of
  a Python dictionary are.
\<close>

lemma store_if_newer_distinct:
  "distinct (map fst es) \<Longrightarrow> distinct (map fst (store_if_newer es p v t n))"
  by (auto simp: store_if_newer_def distinct_update split: option.splits)

lemma flatten_set_distinct:
  "distinct (map fst es) \<Longrightarrow> distinct (map fst (flatten_set es p kvs t n))"
proof (induction es p kvs t n rule: flatten_set.induct)
  case (1 es p t n)
  then show ?case by simp
next
  case (2 es p k v kvs t n)
  then show ?case
    by (cases v) (simp_all add: store_if_newer_distinct)
qed

lemma apply_lm_distinct:
  "distinct (map fst (entries m)) \<Longrightarrow> apply_lm m op = Inr (m', b) \<Longrightarrow>
     distinct (map fst (entries m'))"
  by (cases "op_value op")
     (auto simp: apply_lm_def apply_set_def record_operation_def store_if_newer_distinct
        flatten_set_distinct split: if_splits)

lemma apply_all_lm_distinct:
  "distinct (map fst (entries m)) \<Longrightarrow> apply_all_lm m ops = Inr m' \<Longrightarrow>
     distinct (map fst (entries m'))"
proof (induction ops arbitrary: m)
  case Nil
  then show ?case by simp
next
  case (Cons op ops)
  then show ?case
    by (auto split: sum.splits dest: apply_lm_distinct)
qed

text \<open>
  C1 (as the code has it). Take an entry stored at a non-empty path \<open>p\<close> that no
  other entry path conflicts with (no other non-empty entry path is a prefix or an
  extension of \<open>p\<close>), in a map that holds no tombstone at a proper prefix of \<open>p\<close>. Then
  \<open>value()\<close> shows the entry's value at \<open>p\<close> unless the tombstone stored at \<open>p\<close> has a
  timestamp strictly greater than the entry's, in which case \<open>value()\<close> has nothing at
  \<open>p\<close>. Equal timestamps leave the entry visible, whatever the origins are.
\<close>

theorem value_hides_iff_newer_tombstone_at_path:
  assumes "map_of (entries m) p = Some (v, ts, n)"
    and "distinct (map fst (entries m))"
    and "p \<noteq> []"
    and "\<forall>q \<in> fst ` set (entries m). q \<noteq> p \<and> q \<noteq> [] \<longrightarrow> \<not> prefix q p \<and> \<not> prefix p q"
    and "\<forall>q \<in> fst ` set (tombstones m). \<not> strict_prefix q p"
  shows "lookup_path (value_lm m) p =
           (if (\<exists>tts tn. map_of (tombstones m) p = Some (tts, tn) \<and> ts < tts) then None
            else Some v)"
proof -
  have "lookup_path (value_lm m) p = (if hidden (tombstones m) p ts then None else Some v)"
    unfolding value_lm_def
    using value_loop_lookup [OF assms(2) assms(3) assms(4), of "tombstones m" "[]"] assms(1) assms(3)
    by (simp add: lookup_path_empty)
  moreover have "hidden (tombstones m) p ts
      \<longleftrightarrow> (\<exists>tts tn. map_of (tombstones m) p = Some (tts, tn) \<and> ts < tts)"
    by (auto simp: hidden_def split: option.splits)
  ultimately show ?thesis
    by simp
qed

theorem value_hides_iff_newer_tombstone_at_path_witness:
  "apply_all_lm (LWWMap ''s'' None) deleted_ops = Inr deleted_map
   \<and> map_of (entries deleted_map) [''d''] = Some (JNum 1, 1, ''n'')
   \<and> map_of (tombstones deleted_map) [''d''] = Some (2, ''n'')
   \<and> lookup_path (value_lm deleted_map) [''d''] = None
   \<and> map_of (entries deleted_map) [''e'', ''f''] = Some (JStr ''x'', 3, ''n'')
   \<and> map_of (tombstones deleted_map) [''e'', ''f''] = None
   \<and> lookup_path (value_lm deleted_map) [''e'', ''f''] = Some (JStr ''x'')"
proof -
  have r: "apply_all_lm (LWWMap ''s'' None) deleted_ops = Inr deleted_map"
    by (simp add: deleted_ops_def deleted_map_def lm_eval)
  have d: "distinct (map fst (entries deleted_map))"
    by (simp add: deleted_map_def)
  have e1: "map_of (entries deleted_map) [''d''] = Some (JNum 1, 1, ''n'')"
    and e2: "map_of (entries deleted_map) [''e'', ''f''] = Some (JStr ''x'', 3, ''n'')"
    by (simp_all add: deleted_map_def)
  have t1: "map_of (tombstones deleted_map) [''d''] = Some (2, ''n'')"
    and t2: "map_of (tombstones deleted_map) [''e'', ''f''] = None"
    by (simp_all add: deleted_map_def)
  have i1: "\<forall>q \<in> fst ` set (entries deleted_map).
              q \<noteq> [''d''] \<and> q \<noteq> [] \<longrightarrow> \<not> prefix q [''d''] \<and> \<not> prefix [''d''] q"
    and i2: "\<forall>q \<in> fst ` set (entries deleted_map).
              q \<noteq> [''e'', ''f''] \<and> q \<noteq> [] \<longrightarrow> \<not> prefix q [''e'', ''f''] \<and> \<not> prefix [''e'', ''f''] q"
    by (simp_all add: deleted_map_def)
  have n1: "\<forall>q \<in> fst ` set (tombstones deleted_map). \<not> strict_prefix q [''d'']"
    and n2: "\<forall>q \<in> fst ` set (tombstones deleted_map). \<not> strict_prefix q [''e'', ''f'']"
    by (simp_all add: deleted_map_def)
  have v1: "lookup_path (value_lm deleted_map) [''d''] = None"
    using value_hides_iff_newer_tombstone_at_path [OF e1 d _ i1 n1] t1 by simp
  have v2: "lookup_path (value_lm deleted_map) [''e'', ''f''] = Some (JStr ''x'')"
    using value_hides_iff_newer_tombstone_at_path [OF e2 d _ i2 n2] t2 by simp
  from r e1 e2 t1 t2 v1 v2 show ?thesis
    by simp
qed

text \<open>
  The rule as the specification words it fails on a state reached by two
  operations: a set of \<open>c\<close> and a delete of \<open>c\<close> with the same timestamp and a greater
  origin. The tombstone's (timestamp, origin) pair is above the entry's, so the
  specification's rule hides the entry; \<open>value()\<close> shows it.
\<close>

theorem spec_hidden_on_tie_but_visible_counterexample:
  "apply_all_lm (LWWMap ''s'' None) tie_ops = Inr tie_map
   \<and> map_of (entries tie_map) [''c''] = Some (JNum 2, 5, ''a-node'')
   \<and> map_of (tombstones tie_map) [''c''] = Some (5, ''z'')
   \<and> spec_hidden (tombstones tie_map) [''c''] 5 ''a-node''
   \<and> lookup_path (value_lm tie_map) [''c''] = Some (JNum 2)"
  by (simp add: tie_ops_def tie_map_def spec_hidden_def lm_eval)

text \<open>
  C2. The order in which a scalar and an entry below it were stored decides which of
  them \<open>value()\<close> shows. With the child stored first, the assignment of the scalar to
  the last path segment replaces the dictionary that holds the child; with the
  scalar stored first, the walk to the child replaces the scalar by a dictionary.
\<close>

theorem value_scalar_stored_later_replaces_children:
  "map_sum id value_lm (apply_all_lm (LWWMap ''s'' None) child_then_scalar)
     = Inr [(''a'', JNum 2)]
   \<and> map_sum id value_lm (apply_all_lm (LWWMap ''s'' None) scalar_then_child)
     = Inr [(''a'', JDict [(''b'', JNum 1)])]"
  by (simp add: child_then_scalar_def scalar_then_child_def lm_eval)

section \<open>Timestamps on the wire and in the state round trip\<close>

lemma demo_srv_eval:
  "map_of (ws_users demo_server) 11 = Some (User alice)"
  "get_room (srv_rooms demo_server) ''r'' = Some demo_room"
  "write_denied demo_server uid rid = False"
  by (simp_all add: demo_server_def CollabkitServer_def demo_manager_def get_room_def write_denied_def)

lemma from_dict_ignores_timestamp:
  "from_dict (data\<lparr>d_timestamp := t\<rparr>) True now = from_dict data True now"
  by (simp add: from_dict_def split: option.splits)

lemma from_dict_server_time:
  "from_dict data True now = Inr op \<Longrightarrow> op_timestamp op = now"
  by (auto simp: from_dict_def split: option.splits)

lemma get_room_put_room: "get_room (srv_rooms (put_room srv rid r)) rid = Some r"
  by (simp add: get_room_def put_room_def update_conv')

lemma apply_lm_log:
  "apply_lm m op = Inr (m', applied) \<Longrightarrow>
     operations m' = (if applied then operations m @ [op] else operations m)"
  by (auto simp: apply_lm_def record_operation_def split: if_splits)

text \<open>
  C4. \<^verbatim>\<open>Operation.from_dict\<close> with its default arguments never reads the
  \<open>timestamp\<close> key: the operation it builds carries the clock reading taken during
  the call, whatever the client supplied. \<^verbatim>\<open>_handle_operation\<close> therefore does the
  same for every client timestamp, and an operation it appends to the room's log
  carries that clock reading.
\<close>

theorem server_assigns_receive_time:
  "from_dict (data\<lparr>d_timestamp := t\<rparr>) True now = from_dict data True now
   \<and> (\<forall>op. from_dict data True now = Inr op \<longrightarrow> op_timestamp op = now)
   \<and> handle_operation srv w rid (data\<lparr>d_timestamp := t\<rparr>) now
       = handle_operation srv w rid data now
   \<and> (\<forall>r srv' effects r'.
         get_room (srv_rooms srv) rid = Some r
         \<and> handle_operation srv w rid data now = (srv', effects)
         \<and> get_room (srv_rooms srv') rid = Some r'
         \<longrightarrow> operations (room_state r') = operations (room_state r)
             \<or> (\<exists>op. from_dict data True now = Inr op \<and> op_timestamp op = now
                     \<and> operations (room_state r') = operations (room_state r) @ [op]))"
proof (intro conjI allI impI)
  show "from_dict (data\<lparr>d_timestamp := t\<rparr>) True now = from_dict data True now"
    by (rule from_dict_ignores_timestamp)
  show "\<And>op. from_dict data True now = Inr op \<Longrightarrow> op_timestamp op = now"
    by (rule from_dict_server_time)
  show "handle_operation srv w rid (data\<lparr>d_timestamp := t\<rparr>) now
       = handle_operation srv w rid data now"
    unfolding handle_operation_def from_dict_ignores_timestamp by (rule refl)
next
  fix r srv' effects r'
  assume a: "get_room (srv_rooms srv) rid = Some r
         \<and> handle_operation srv w rid data now = (srv', effects)
         \<and> get_room (srv_rooms srv') rid = Some r'"
  show "operations (room_state r') = operations (room_state r)
             \<or> (\<exists>op. from_dict data True now = Inr op \<and> op_timestamp op = now
                     \<and> operations (room_state r') = operations (room_state r) @ [op])"
  proof (cases "srv' = srv")
    case True
    with a show ?thesis by auto
  next
    case False
    with a obtain op ra where
      op: "from_dict data True now = Inr op"
      and ap: "apply_operation r op = Inr (ra, True)"
      and s: "srv' = put_room srv rid ra"
      by (auto simp: handle_operation_def Let_def split: option.splits if_splits sum.splits)
    from s a have "r' = ra"
      by (simp add: get_room_put_room)
    with ap have "operations (room_state r') = operations (room_state r) @ [op]"
      by (auto simp: apply_operation_def split: sum.splits dest: apply_lm_log)
    with op from_dict_server_time [OF op] show ?thesis
      by simp
  qed
qed

theorem server_assigns_receive_time_witness:
  "from_dict future_op True 100 = Inr (mk_op ''c1'' 100 ''u1'' [''x''] ''set'' (JNum 1))
   \<and> d_timestamp future_op = Some 99999
   \<and> handle_operation demo_server 11 ''r'' (future_op\<lparr>d_timestamp := Some 5\<rparr>) 100
       = handle_operation demo_server 11 ''r'' future_op 100
   \<and> get_room (srv_rooms demo_server) ''r'' = Some demo_room
   \<and> (\<exists>srv' effects r'.
         handle_operation demo_server 11 ''r'' future_op 100 = (srv', effects)
         \<and> get_room (srv_rooms srv') ''r'' = Some r'
         \<and> operations (room_state r') = [mk_op ''c1'' 100 ''u1'' [''x''] ''set'' (JNum 1)])"
proof -
  let ?op = "mk_op ''c1'' 100 ''u1'' [''x''] ''set'' (JNum 1)"
  note T = server_assigns_receive_time
    [where data = future_op and t = "Some 5" and now = 100 and srv = demo_server
       and w = 11 and rid = "''r''"]
  have fd: "from_dict future_op True 100 = Inr ?op"
    by (simp add: from_dict_def future_op_def mk_op_def)
  have g: "get_room (srv_rooms demo_server) ''r'' = Some demo_room"
    by (rule demo_srv_eval)
  have e: "operations (room_state demo_room) = []"
    by (simp add: demo_room_def Room_def LWWMap_def Let_def)
  have "\<exists>srv' effects r'.
         handle_operation demo_server 11 ''r'' future_op 100 = (srv', effects)
         \<and> get_room (srv_rooms srv') ''r'' = Some r'
         \<and> operations (room_state r') \<noteq> operations (room_state demo_room)"
    by (simp add: handle_operation_def demo_srv_eval fd apply_operation_def e
        apply_lm_def has_seen_def mk_op_def record_operation_def get_room_put_room Let_def)
  then obtain srv' effects r' where
    h: "handle_operation demo_server 11 ''r'' future_op 100 = (srv', effects)"
    and g': "get_room (srv_rooms srv') ''r'' = Some r'"
    and ne: "operations (room_state r') \<noteq> operations (room_state demo_room)"
    by blast
  from T g h g' ne obtain op where
    "from_dict future_op True 100 = Inr op"
    "operations (room_state r') = operations (room_state demo_room) @ [op]"
    by blast
  with fd e have "operations (room_state r') = [?op]"
    by simp
  with h g' have last: "\<exists>srv' effects r'.
         handle_operation demo_server 11 ''r'' future_op 100 = (srv', effects)
         \<and> get_room (srv_rooms srv') ''r'' = Some r'
         \<and> operations (room_state r') = [?op]"
    by blast
  from T have "handle_operation demo_server 11 ''r'' (future_op\<lparr>d_timestamp := Some 5\<rparr>) 100
       = handle_operation demo_server 11 ''r'' future_op 100"
    by blast
  with fd g last show ?thesis
    by (simp add: future_op_def)
qed

text \<open>
  C3. \<^verbatim>\<open>from_state\<close> rebuilds the log with \<^verbatim>\<open>Operation.from_dict(op)\<close>, whose default
  \<^verbatim>\<open>use_server_timestamp=True\<close> replaces every timestamp by the current clock
  reading. For a map whose single operation has timestamp 5, rebuilt when the clock
  reads 100, the value is preserved but \<^verbatim>\<open>operations_since(50)\<close> is empty before the
  round trip and holds the re-stamped operation after it.
\<close>

theorem from_state_restamps_operation_log:
  "\<exists>d. from_state ''b'' (state_lm demo_map) (\<lambda>i. 100) = Inr d
      \<and> value_lm d = value_lm demo_map
      \<and> operations_since demo_map 50 = []
      \<and> operations_since d 50 = [mk_op ''o1'' 100 ''a'' [''x''] ''set'' (JNum 1)]"
  by (simp add: from_state_def state_lm_def demo_map_def to_dict_def from_dict_def
      path_of_str_def split_dot_def operations_since_def lm_eval)

section \<open>The legacy state_update handler\<close>

lemma handle_state_update_raises:
  "map_of (ws_users srv) w = Some u \<Longrightarrow> \<not> write_denied srv (get_user_id u) rid \<Longrightarrow>
   get_room (srv_rooms srv) rid = Some r \<Longrightarrow>
   handle_state_update srv w rid path_field v uuid4 now = Inl TypeError"
  by (simp add: handle_state_update_def call_set_def)

text \<open>
  C7. A state_update message from a bound user for an existing room makes
  \<^verbatim>\<open>_handle_state_update\<close> call \<^verbatim>\<open>LWWMap.set\<close> with three positional arguments, which
  raises TypeError: no operation is applied and nothing is broadcast; the receive
  loop answers with INTERNAL_ERROR and ends.
\<close>

theorem state_update_raises_type_error:
  "handle_state_update demo_server 11 ''r'' (Some ''a'') (JNum 1) ''id-1'' 100 = Inl TypeError
   \<and> after_handler demo_server 11
        (handle_state_update demo_server 11 ''r'' (Some ''a'') (JNum 1) ''id-1'' 100)
      = (demo_server, [Send 11 (ErrorMessage INTERNAL_ERROR ''Internal error.'')], Closed)"
proof -
  have raised:
    "handle_state_update demo_server 11 ''r'' (Some ''a'') (JNum 1) ''id-1'' 100 = Inl TypeError"
    by (simp add: handle_state_update_def call_set_def demo_srv_eval)
  then show ?thesis
    by (simp add: after_handler_def send_error_def)
qed

section \<open>Creating a room that exists\<close>

text \<open>
  No room is ever stored under the empty id: \<^verbatim>\<open>create_room\<close> is the only function
  that adds a key, and it replaces an empty id by the UUID.
\<close>

lemma create_room_no_empty_id:
  assumes "[] \<notin> fst ` set (rooms mgr)" and "uuid4 \<noteq> []"
  shows "[] \<notin> fst ` set (rooms (fst (create_room mgr rid_arg initial_state metadata uuid4)))"
  using assms
  by (auto simp: create_room_def Let_def dom_update split: option.splits if_splits)

text \<open>
  C10. \<^verbatim>\<open>create_room\<close> called with the id of an existing room returns that room and
  leaves the manager, and so every room, as it was; \<open>initial_state\<close> and \<open>metadata\<close>
  are not looked at and no room-created callback is called. (An empty id never
  names a room: \<^verbatim>\<open>room_id or str(uuid.uuid4())\<close> replaces it.)
\<close>

theorem create_room_existing_returns_it:
  "map_of (rooms mgr) rid = Some r \<Longrightarrow> rid \<noteq> [] \<Longrightarrow>
     create_room mgr (Some rid) initial_state metadata uuid4 = (mgr, r, [])"
  by (simp add: create_room_def)

theorem create_room_existing_returns_it_witness:
  "map_of (rooms demo_manager) ''r'' = Some demo_room
   \<and> create_room demo_manager (Some ''r'') (Some [(''x'', JNum 1)]) (Some [(''k'', JStr ''v'')]) ''id-2''
       = (demo_manager, demo_room, [])"
proof -
  have h: "map_of (rooms demo_manager) ''r'' = Some demo_room"
    by (simp add: demo_manager_def)
  from create_room_existing_returns_it [OF h, of "Some [(''x'', JNum 1)]" "Some [(''k'', JStr ''v'')]" "''id-2''"] h
  show ?thesis by simp
qed

section \<open>The token bucket\<close>

text \<open>
  A number with a significand of at most 53 bits and an exponent that binary64 has
  is a float, and rounding returns it unchanged.
\<close>

lemma fl_exact:
  fixes m k :: int
  assumes "\<bar>m\<bar> < 2 ^ 53" and "- 1074 \<le> k"
  shows "fl (real_of_int m * 2 powr real_of_int k) = real_of_int m * 2 powr real_of_int k"
proof (cases "m = 0")
  case True
  then show ?thesis by (simp add: fl_def)
next
  case False
  define x where "x = real_of_int m * 2 powr real_of_int k"
  define e where "e = max (\<lfloor>log 2 \<bar>x\<bar>\<rfloor> - 52) (- 1074)"
  have x0: "x \<noteq> 0"
    using False by (simp add: x_def)
  have ax: "\<bar>x\<bar> = real_of_int \<bar>m\<bar> * 2 powr real_of_int k"
    by (simp add: x_def abs_mult)
  have "real_of_int \<bar>m\<bar> < 2 ^ 53"
    using assms(1) by (metis of_int_less_iff of_int_numeral of_int_power)
  then have "\<bar>x\<bar> < 2 ^ 53 * 2 powr real_of_int k"
    unfolding ax by (intro mult_strict_right_mono) simp_all
  also have "\<dots> = 2 powr (53 + real_of_int k)"
    by (simp add: powr_add)
  finally have lt: "\<bar>x\<bar> < 2 powr (53 + real_of_int k)" .
  have "log 2 \<bar>x\<bar> < 53 + real_of_int k"
    using lt x0 by (simp add: log_less_iff)
  then have "\<lfloor>log 2 \<bar>x\<bar>\<rfloor> < 53 + k"
    by linarith
  with assms(2) have ek: "e \<le> k"
    by (simp add: e_def)
  define d where "d = nat (k - e)"
  have kd: "k = e + int d"
    using ek by (simp add: d_def)
  have q: "x / 2 powr real_of_int e = real_of_int (m * 2 ^ d)"
    by (simp add: x_def kd powr_add powr_realpow)
  have "fl x = real_of_int (m * 2 ^ d) * 2 powr real_of_int e"
    using x0 unfolding fl_def Let_def e_def [symmetric] q by simp
  also have "\<dots> = x"
    by (simp add: x_def kd powr_add powr_realpow)
  finally show ?thesis
    by (simp add: x_def)
qed

text \<open>So is every multiple of \<open>2^-22\<close> below \<open>2^31\<close> in absolute value.\<close>

lemma fl_on_grid:
  assumes "on_grid x" and "\<bar>x\<bar> < 2 ^ 31"
  shows "fl x = x"
proof -
  from assms(1) obtain j :: int where j: "x * 2 ^ 22 = real_of_int j"
    by (auto simp: on_grid_def Ints_def)
  then have x: "x = real_of_int j * 2 powr real_of_int (- 22)"
    by (simp add: powr_minus powr_realpow field_simps)
  have "\<bar>real_of_int j\<bar> = \<bar>x\<bar> * 2 ^ 22"
    using j by (simp add: abs_mult)
  also have "\<dots> < 2 ^ 31 * 2 ^ 22"
    using assms(2) by (intro mult_strict_right_mono) simp_all
  finally have "\<bar>real_of_int j\<bar> < 2 ^ 53"
    by simp
  then have "real_of_int \<bar>j\<bar> < real_of_int (2 ^ 53)"
    by simp
  then have "\<bar>j\<bar> < 2 ^ 53"
    by (simp only: of_int_less_iff)
  from fl_exact [OF this, of "- 22"] show ?thesis
    unfolding x by simp
qed

lemma on_grid_add: "on_grid x \<Longrightarrow> on_grid y \<Longrightarrow> on_grid (x + y)"
  by (simp add: on_grid_def distrib_right)

lemma on_grid_diff: "on_grid x \<Longrightarrow> on_grid y \<Longrightarrow> on_grid (x - y)"
  by (simp add: on_grid_def left_diff_distrib)

lemma on_grid_nat: "on_grid (real n)"
  by (simp add: on_grid_def)

lemma on_grid_mult_nat: "on_grid x \<Longrightarrow> on_grid (x * real n)"
proof -
  assume "on_grid x"
  then obtain j :: int where j: "x * 2 ^ 22 = real_of_int j"
    by (auto simp: on_grid_def Ints_def)
  have "x * real n * 2 ^ 22 = (x * 2 ^ 22) * real n"
    by simp
  also have "\<dots> = real_of_int (j * int n)"
    unfolding j by simp
  finally show ?thesis
    unfolding on_grid_def by (metis Ints_of_int)
qed

lemma on_grid_min: "on_grid x \<Longrightarrow> on_grid y \<Longrightarrow> on_grid (min x y)"
  by (simp add: min_def)

lemma on_grid_rate: "r \<in> \<nat> \<Longrightarrow> on_grid x \<Longrightarrow> on_grid (x * r)"
  by (auto simp: Nats_def on_grid_mult_nat)

lemma on_grid_Nats: "r \<in> \<nat> \<Longrightarrow> on_grid r"
  by (auto simp: Nats_def on_grid_nat)

text \<open>
  One call with the window of one second, a whole rate up to 1024 and numbers that
  are multiples of \<open>2^-22\<close> within bounds: no operation rounds, and the call computes
  \<open>min rate (tokens + elapsed * rate)\<close> exactly.
\<close>

lemma is_allowed_exact:
  fixes rl w now fresh
  defines "lst \<equiv> (case map_of (rl_last_update rl) w of None \<Rightarrow> fresh | Some l \<Rightarrow> l)"
    and "tokens0 \<equiv> (case map_of (rl_tokens rl) w of None \<Rightarrow> rl_rate rl | Some t \<Rightarrow> t)"
  defines "tok \<equiv> min (rl_rate rl) (tokens0 + (now - lst) * rl_rate rl)"
  assumes "rl_window rl = 1" and "rl_rate rl \<in> \<nat>" and "rl_rate rl \<le> 1024"
    and "on_grid now" and "on_grid lst" and "\<bar>now - lst\<bar> < 2 ^ 20"
    and "on_grid tokens0" and "\<bar>tokens0 + (now - lst) * rl_rate rl\<bar> < 2 ^ 31"
  shows "is_allowed rl w now fresh =
           (rl\<lparr>rl_tokens := AList.update w (if tok \<ge> 1 then tok - 1 else tok) (rl_tokens rl),
               rl_last_update := AList.update w now (rl_last_update rl)\<rparr>, Inr (tok \<ge> 1))"
proof -
  have r0: "0 \<le> rl_rate rl"
    using assms(5) by (auto simp: Nats_def)
  have e: "fl (now - lst) = now - lst"
    using assms(7,8,9) by (intro fl_on_grid on_grid_diff) simp_all
  have r: "fl (rl_rate rl / rl_window rl) = rl_rate rl"
    using assms(4,5,6) r0 by (simp add: fl_on_grid on_grid_Nats)
  have "\<bar>(now - lst) * rl_rate rl\<bar> \<le> \<bar>now - lst\<bar> * 1024"
    unfolding abs_mult using assms(6) r0 by (intro mult_left_mono) simp_all
  also have "\<dots> < 2 ^ 20 * 1024"
    using assms(9) by simp
  finally have "\<bar>(now - lst) * rl_rate rl\<bar> < 2 ^ 31"
    by simp
  then have m: "fl ((now - lst) * rl_rate rl) = (now - lst) * rl_rate rl"
    using assms(5,7,8) by (intro fl_on_grid on_grid_rate on_grid_diff)
  have s: "fl (tokens0 + (now - lst) * rl_rate rl) = tokens0 + (now - lst) * rl_rate rl"
    using assms(5,7,8,10,11) by (intro fl_on_grid on_grid_add on_grid_rate on_grid_diff)
  have "on_grid (tokens0 + (now - lst) * rl_rate rl)"
    using assms(5,7,8,10) by (intro on_grid_add on_grid_rate on_grid_diff)
  then have gt: "on_grid tok"
    unfolding tok_def using on_grid_Nats [OF assms(5)] by (rule on_grid_min [rotated])
  have d: "fl (tok - 1) = tok - 1" if "1 \<le> tok"
  proof -
    have "tok \<le> 1024"
      unfolding tok_def using assms(6) by simp
    with that have "\<bar>tok - 1\<bar> < 2 ^ 31"
      by simp
    moreover have "on_grid (tok - 1)"
      using gt on_grid_nat [of 1] by (intro on_grid_diff) simp_all
    ultimately show ?thesis
      by (rule fl_on_grid [rotated])
  qed
  have w0: "rl_window rl \<noteq> 0"
    using assms(4) by simp
  show ?thesis
    unfolding is_allowed_def Let_def lst_def [symmetric] tokens0_def [symmetric] e r m s
      tok_def [symmetric]
    using w0 d by simp
qed

lemma filter_length_mono:
  "(\<And>x. x \<in> set xs \<Longrightarrow> P x \<Longrightarrow> Q x) \<Longrightarrow> length (filter P xs) \<le> length (filter Q xs)"
proof (induction xs)
  case Nil
  then show ?case by simp
next
  case (Cons x xs)
  then have "length (filter P xs) \<le> length (filter Q xs)"
    by simp
  with Cons.prems [of x] show ?case
    by auto
qed

lemma passed_by_gate: "passed_by U e \<Longrightarrow> gate e \<le> U"
  by (cases e) simp_all

lemma in_window_passed: "in_window t e \<Longrightarrow> ordered e \<Longrightarrow> passed_by (t + 1) e"
  by (cases e) simp_all

lemma none_passed:
  assumes "\<forall>e \<in> set events. p \<le> gate e" and "U < p"
  shows "filter (passed_by U) events = []"
  using assms by (auto simp: filter_empty_conv dest!: passed_by_gate)

text \<open>One call on a bucket that is in use.\<close>

lemma valid_step:
  assumes "valid rl w l T" and "on_grid now" and "l \<le> now" and "now - l < 2 ^ 20"
  defines "tok \<equiv> min (rl_rate rl) (T + (now - l) * rl_rate rl)"
  shows "\<exists>rl1. is_allowed rl w now fresh = (rl1, Inr (tok \<ge> 1))
           \<and> valid rl1 w now (if tok \<ge> 1 then tok - 1 else tok)
           \<and> rl_rate rl1 = rl_rate rl"
proof -
  from assms(1) have win: "rl_window rl = 1" and nat: "rl_rate rl \<in> \<nat>"
    and le: "rl_rate rl \<le> 1024"
    and lu: "map_of (rl_last_update rl) w = Some l" and tk: "map_of (rl_tokens rl) w = Some T"
    and gl: "on_grid l" and gT: "on_grid T" and lo: "- (2 ^ 30) \<le> T" and hi: "T \<le> rl_rate rl"
    by (simp_all add: valid_def)
  have r0: "0 \<le> rl_rate rl"
    using nat by (auto simp: Nats_def)
  define g where "g = (now - l) * rl_rate rl"
  have g0: "0 \<le> g"
    unfolding g_def using assms(3) r0 by (intro mult_nonneg_nonneg) simp_all
  have "g \<le> (now - l) * 1024"
    unfolding g_def using assms(3) le by (intro mult_left_mono) simp_all
  also have "\<dots> < 2 ^ 20 * 1024"
    using assms(4) by simp
  finally have g1: "g < 2 ^ 30"
    by simp
  have b1: "\<bar>now - l\<bar> < 2 ^ 20"
    using assms(3,4) by simp
  have b2: "\<bar>T + (now - l) * rl_rate rl\<bar> < 2 ^ 31"
    using g0 g1 lo hi le unfolding g_def [symmetric] by simp
  let ?T1 = "if tok \<ge> 1 then tok - 1 else tok"
  let ?rl1 = "rl\<lparr>rl_tokens := AList.update w ?T1 (rl_tokens rl),
               rl_last_update := AList.update w now (rl_last_update rl)\<rparr>"
  have step: "is_allowed rl w now fresh = (?rl1, Inr (tok \<ge> 1))"
    using is_allowed_exact [where rl = rl and w = w and now = now and fresh = fresh] win nat le assms(2) gl gT b1 b2
    by (simp add: lu tk tok_def)
  have "on_grid (T + (now - l) * rl_rate rl)"
    using nat gT gl assms(2) by (intro on_grid_add on_grid_rate on_grid_diff)
  then have gt: "on_grid tok"
    unfolding tok_def using on_grid_Nats [OF nat] by (rule on_grid_min [rotated])
  have gt1: "on_grid (tok - 1)"
    using gt on_grid_nat [of 1] by (intro on_grid_diff) simp_all
  have tl: "- (2 ^ 30) \<le> tok"
    unfolding tok_def g_def [symmetric] using r0 lo g0 by simp
  have th: "tok \<le> rl_rate rl"
    unfolding tok_def by simp
  have "valid ?rl1 w now ?T1"
    unfolding valid_def using win nat le assms(2) gt gt1 tl th
    by (simp add: update_conv')
  with step show ?thesis
    by auto
qed

text \<open>
  The loop from a bucket in use: it runs through, every gate reading lies at or
  after \<open>p\<close>, a frame is received at or after its gate reading, and three bounds
  on what passes the gate.
\<close>

lemma loop_bounds:
  assumes "valid rl w l T" and "timed l p its" and "l \<le> p"
  shows "\<exists>rl' events. receive_loop rl w its = (rl', events, None)
           \<and> (\<forall>e \<in> set events. p \<le> gate e \<and> ordered e)
           \<and> (\<forall>U. real (length (filter (passed_by U) events))
                   \<le> max 0 T + rl_rate rl * max 0 (U - l))
           \<and> (\<forall>U. real (length (filter (passed_by U) events))
                   \<le> rl_rate rl + rl_rate rl * max 0 (U - p))
           \<and> (\<forall>t. real (frames_within t events) \<le> 2 * rl_rate rl + 1)"
  using assms
proof (induction its arbitrary: rl l T p)
  case Nil
  from Nil.prems(1) have "0 \<le> rl_rate rl"
    by (auto simp: valid_def Nats_def)
  then show ?case
    by (simp add: frames_within_def)
next
  case (Cons it its)
  obtain now fresh waited where it: "it = (now, fresh, waited)"
    by (cases it)
  define r where "r = rl_rate rl"
  define tok where "tok = min r (T + (now - l) * r)"
  define T1 where "T1 = (if tok \<ge> 1 then tok - 1 else tok)"
  define p1 where "p1 = (case waited of None \<Rightarrow> now | Some a \<Rightarrow> a)"
  define ev where "ev = (if \<not> tok \<ge> 1 then RateLimited now
                 else case waited of None \<Rightarrow> TimedOut now | Some a \<Rightarrow> Received now a)"
  from Cons.prems(1) have r0: "0 \<le> r" and Tr: "T \<le> r"
    by (auto simp: valid_def Nats_def r_def)
  from Cons.prems(2) have gn: "on_grid now" and pn: "p \<le> now" and gap: "now - l < 2 ^ 20"
    and rest: "timed now p1 its" and np: "now \<le> p1"
    by (auto simp: it p1_def split: option.splits)
  from pn Cons.prems(3) have ln: "l \<le> now"
    by simp
  from valid_step [OF Cons.prems(1) gn ln gap, of fresh] obtain rl1 where
    step: "is_allowed rl w now fresh = (rl1, Inr (tok \<ge> 1))"
    and v1: "valid rl1 w now T1" and r1: "rl_rate rl1 = r"
    unfolding tok_def T1_def r_def by blast
  from Cons.IH [OF v1 rest np] obtain rl' events where
    run: "receive_loop rl1 w its = (rl', events, None)"
    and ord: "\<forall>e \<in> set events. p1 \<le> gate e \<and> ordered e"
    and from1: "\<And>U. real (length (filter (passed_by U) events)) \<le> max 0 T1 + r * max 0 (U - now)"
    and cap1: "\<And>U. real (length (filter (passed_by U) events)) \<le> r + r * max 0 (U - p1)"
    and win1: "\<And>t. real (frames_within t events) \<le> 2 * r + 1"
    unfolding r1 by blast
  have whole: "receive_loop rl w (it # its) = (rl', ev # events, None)"
    by (simp add: it step run ev_def)
  have gate_ev: "gate ev = now" and ord_ev: "ordered ev"
    using np by (auto simp: ev_def p1_def split: option.splits)
  have pass_ev: "passed_by U ev \<longleftrightarrow> tok \<ge> 1 \<and> now \<le> U" for U
    by (auto simp: ev_def split: option.splits)
  have order: "\<forall>e \<in> set (ev # events). p \<le> gate e \<and> ordered e"
    using ord pn np gate_ev ord_ev by auto
  have tok_le: "tok \<le> T + (now - l) * r" and tok_r: "tok \<le> r"
    by (simp_all add: tok_def)
  have grow: "0 \<le> (now - l) * r"
    using r0 ln by (intro mult_nonneg_nonneg) simp_all
  have late: "real (length (filter (passed_by U) (ev # events))) = 0" if "U < now" for U
  proof -
    from ord np that have "filter (passed_by U) events = []"
      by (intro none_passed [of events p1]) auto
    with that show ?thesis
      by (simp add: pass_ev)
  qed
  have early: "real (length (filter (passed_by U) (ev # events)))
                 = (if tok \<ge> 1 then 1 else 0) + real (length (filter (passed_by U) events))"
    if "now \<le> U" for U
    using that by (simp add: pass_ev)
  have from0: "real (length (filter (passed_by U) (ev # events))) \<le> max 0 T + r * max 0 (U - l)"
    for U
  proof (cases "now \<le> U")
    case False
    have "0 \<le> r * max 0 (U - l)"
      using r0 by (intro mult_nonneg_nonneg) simp_all
    with late [of U] False show ?thesis
      by simp
  next
    case True
    have split: "r * max 0 (U - l) = (now - l) * r + r * max 0 (U - now)"
      using True ln by (simp add: algebra_simps max_def)
    show ?thesis
    proof (cases "tok \<ge> 1")
      case True
      then have "real (length (filter (passed_by U) events)) \<le> tok - 1 + r * max 0 (U - now)"
        using from1 [of U] by (simp add: T1_def)
      with early [OF \<open>now \<le> U\<close>] True tok_le split show ?thesis
        by simp
    next
      case False
      then have "real (length (filter (passed_by U) events)) \<le> max 0 tok + r * max 0 (U - now)"
        using from1 [of U] by (simp add: T1_def)
      with early [OF \<open>now \<le> U\<close>] False tok_le grow split show ?thesis
        by simp
    qed
  qed
  have cap0: "real (length (filter (passed_by U) (ev # events))) \<le> r + r * max 0 (U - p)"
    for U
  proof (cases "now \<le> U")
    case False
    have "0 \<le> r * max 0 (U - p)"
      using r0 by (intro mult_nonneg_nonneg) simp_all
    with late [of U] False r0 show ?thesis
      by simp
  next
    case True
    have "r * max 0 (U - now) \<le> r * max 0 (U - p)"
      using r0 pn by (intro mult_left_mono) simp_all
    moreover have "(if tok \<ge> 1 then 1 else 0) + max 0 T1 \<le> r"
      using tok_r r0 by (simp add: T1_def)
    ultimately show ?thesis
      using early [OF True] from1 [of U] by simp
  qed
  have win0: "real (frames_within t (ev # events)) \<le> 2 * r + 1" for t
  proof (cases "in_window t ev")
    case False
    with win1 [of t] show ?thesis
      by (simp add: frames_within_def)
  next
    case True
    then obtain a where a: "waited = Some a" "t \<le> a" "a \<le> t + 1"
      by (auto simp: ev_def split: if_splits option.splits)
    then have p1a: "p1 = a"
      by (simp add: p1_def)
    have "length (filter (in_window t) events) \<le> length (filter (passed_by (t + 1)) events)"
      using ord by (intro filter_length_mono in_window_passed) auto
    then have "real (frames_within t events) \<le> real (length (filter (passed_by (t + 1)) events))"
      by (simp add: frames_within_def)
    also have "\<dots> \<le> r + r * max 0 (t + 1 - a)"
      using cap1 [of "t + 1"] by (simp add: p1a)
    also have "\<dots> \<le> r + r * 1"
      using r0 a(2) by (intro add_left_mono mult_left_mono) simp_all
    finally have "real (frames_within t events) \<le> 2 * r"
      by simp
    with True show ?thesis
      by (simp add: frames_within_def)
  qed
  from whole order from0 cap0 win0 show ?case
    unfolding r_def by blast
qed

text \<open>Calls for another WebSocket leave this one's bucket alone.\<close>

lemma is_allowed_other_channel:
  "is_allowed rl w' now fresh = (rl', outcome) \<Longrightarrow> w' \<noteq> w \<Longrightarrow>
     map_of (rl_tokens rl') w = map_of (rl_tokens rl) w
     \<and> map_of (rl_last_update rl') w = map_of (rl_last_update rl) w
     \<and> rl_rate rl' = rl_rate rl \<and> rl_window rl' = rl_window rl"
  by (auto simp: is_allowed_def Let_def update_conv' split: if_splits)

text \<open>
  C9 (as the code has it). Take a limiter with the window of one second that the
  server configures and a rate that is a whole number up to 1024, a connection
  whose bucket is not in use yet, and a run of its receive loop in which every
  clock reading is a multiple of \<open>2^-22\<close> (as every float from \<open>2^30\<close> on is), the
  readings do not decrease and consecutive gate readings are less than \<open>2^20\<close>
  seconds apart. Then the loop runs without an exception, and within every second
  it receives at most \<open>2 * rate + 1\<close> frames: one whose gate allowed before the second
  began, \<open>rate\<close> for the tokens in the bucket and \<open>rate\<close> for the tokens refilled during
  the second. The time of a frame is the time at which \<^verbatim>\<open>receive_text\<close> returns it.
\<close>

theorem frames_within_one_second_bound:
  assumes "rl_window rl = DEFAULT_RATE_WINDOW"
    and "rl_rate rl \<in> \<nat>" and "rl_rate rl \<le> 1024"
    and "map_of (rl_tokens rl) w = None" and "map_of (rl_last_update rl) w = None"
    and "timed_loop its"
  shows "\<exists>rl' events. receive_loop rl w its = (rl', events, None)
           \<and> real (frames_within t events) \<le> 2 * rl_rate rl + 1"
proof (cases its)
  case Nil
  from assms(2) have "0 \<le> rl_rate rl"
    by (auto simp: Nats_def)
  with Nil show ?thesis
    by (simp add: frames_within_def)
next
  case (Cons it rest)
  obtain now fresh waited where it: "it = (now, fresh, waited)"
    by (cases it)
  define r where "r = rl_rate rl"
  define tok where "tok = min r (r + (now - fresh) * r)"
  define T1 where "T1 = (if tok \<ge> 1 then tok - 1 else tok)"
  define p1 where "p1 = (case waited of None \<Rightarrow> fresh | Some a \<Rightarrow> a)"
  define ev where "ev = (if \<not> tok \<ge> 1 then RateLimited now
                 else case waited of None \<Rightarrow> TimedOut now | Some a \<Rightarrow> Received now a)"
  from assms(1) have win: "rl_window rl = 1"
    by (simp add: DEFAULT_RATE_WINDOW_def)
  from assms(2) have r0: "0 \<le> r" and rn: "r \<in> \<nat>"
    by (auto simp: Nats_def r_def)
  from assms(3) have r1: "r \<le> 1024"
    by (simp add: r_def)
  from assms(6) have gn: "on_grid now" and gf: "on_grid fresh" and nf: "now \<le> fresh"
    and gap: "fresh - now < 2 ^ 20" and rest: "timed now p1 rest" and np: "now \<le> p1"
    by (auto simp: timed_loop_def Cons it p1_def split: option.splits)
  define g where "g = (fresh - now) * r"
  have g0: "0 \<le> g"
    unfolding g_def using nf r0 by (intro mult_nonneg_nonneg) simp_all
  have "g \<le> (fresh - now) * 1024"
    unfolding g_def using nf r1 by (intro mult_left_mono) simp_all
  also have "\<dots> < 2 ^ 20 * 1024"
    using gap by simp
  finally have g1: "g < 2 ^ 30"
    by simp
  have neg: "(now - fresh) * r = - g"
    by (simp add: g_def algebra_simps)
  have b1: "\<bar>now - fresh\<bar> < 2 ^ 20"
    using nf gap by simp
  have b2: "\<bar>r + (now - fresh) * r\<bar> < 2 ^ 31"
    unfolding neg using g0 g1 r0 r1 by simp
  let ?rl1 = "rl\<lparr>rl_tokens := AList.update w T1 (rl_tokens rl),
               rl_last_update := AList.update w now (rl_last_update rl)\<rparr>"
  have step: "is_allowed rl w now fresh = (?rl1, Inr (tok \<ge> 1))"
    using is_allowed_exact [where rl = rl and w = w and now = now and fresh = fresh]
      win rn r1 gn gf b1 b2 on_grid_Nats [OF rn]
    by (simp add: assms(4,5) tok_def T1_def r_def)
  have "on_grid ((now - fresh) * r)"
    using rn gn gf by (intro on_grid_rate on_grid_diff)
  with on_grid_Nats [OF rn] have "on_grid (r + (now - fresh) * r)"
    by (rule on_grid_add)
  then have gt: "on_grid tok"
    unfolding tok_def using on_grid_Nats [OF rn] by (rule on_grid_min [rotated])
  have gt1: "on_grid (tok - 1)"
    using gt on_grid_nat [of 1] by (intro on_grid_diff) simp_all
  have tl: "- (2 ^ 30) \<le> tok"
    unfolding tok_def neg using r0 g1 by simp
  have th: "tok \<le> r"
    unfolding tok_def by simp
  have v1: "valid ?rl1 w now T1"
    unfolding valid_def T1_def using win rn r1 gn gt gt1 tl th
    by (simp add: update_conv' r_def)
  from loop_bounds [OF v1 rest np] obtain rl' events where
    run: "receive_loop ?rl1 w rest = (rl', events, None)"
    and ord: "\<forall>e \<in> set events. p1 \<le> gate e \<and> ordered e"
    and cap1: "\<And>U. real (length (filter (passed_by U) events)) \<le> r + r * max 0 (U - p1)"
    and win1: "\<And>t. real (frames_within t events) \<le> 2 * r + 1"
    by (auto simp: r_def)
  have whole: "receive_loop rl w its = (rl', ev # events, None)"
    by (simp add: Cons it step run ev_def)
  have "real (frames_within t (ev # events)) \<le> 2 * r + 1"
  proof (cases "in_window t ev")
    case False
    with win1 [of t] show ?thesis
      by (simp add: frames_within_def)
  next
    case True
    then obtain a where a: "waited = Some a" "t \<le> a" "a \<le> t + 1"
      by (auto simp: ev_def split: if_splits option.splits)
    then have p1a: "p1 = a"
      by (simp add: p1_def)
    have "length (filter (in_window t) events) \<le> length (filter (passed_by (t + 1)) events)"
      using ord by (intro filter_length_mono in_window_passed) auto
    then have "real (frames_within t events) \<le> real (length (filter (passed_by (t + 1)) events))"
      by (simp add: frames_within_def)
    also have "\<dots> \<le> r + r * max 0 (t + 1 - a)"
      using cap1 [of "t + 1"] by (simp add: p1a)
    also have "\<dots> \<le> r + r * 1"
      using r0 a(2) by (intro add_left_mono mult_left_mono) simp_all
    finally have "real (frames_within t events) \<le> 2 * r"
      by simp
    with True show ?thesis
      by (simp add: frames_within_def)
  qed
  with whole show ?thesis
    by (simp add: r_def)
qed

lemma fl_eval: "on_grid x \<and> \<bar>x\<bar> < 2 ^ 31 \<Longrightarrow> fl x = x"
  by (simp add: fl_on_grid)

lemmas rate_eval =
  eval_nat_numeral is_allowed_def RateLimiter_def DEFAULT_RATE_LIMIT_def DEFAULT_RATE_WINDOW_def
  Let_def fl_eval on_grid_def timed_loop_def frames_within_def

theorem frames_within_one_second_bound_witness:
  "rl_window (RateLimiter DEFAULT_RATE_LIMIT DEFAULT_RATE_WINDOW) = DEFAULT_RATE_WINDOW
   \<and> rl_rate (RateLimiter DEFAULT_RATE_LIMIT DEFAULT_RATE_WINDOW) \<in> \<nat>
   \<and> rl_rate (RateLimiter DEFAULT_RATE_LIMIT DEFAULT_RATE_WINDOW) \<le> 1024
   \<and> map_of (rl_tokens (RateLimiter DEFAULT_RATE_LIMIT DEFAULT_RATE_WINDOW)) 11 = None
   \<and> map_of (rl_last_update (RateLimiter DEFAULT_RATE_LIMIT DEFAULT_RATE_WINDOW)) 11 = None
   \<and> timed_loop quiet_loop
   \<and> (\<exists>rl' events.
         receive_loop (RateLimiter DEFAULT_RATE_LIMIT DEFAULT_RATE_WINDOW) 11 quiet_loop
           = (rl', events, None)
         \<and> real (frames_within 1073741824 events)
             \<le> 2 * rl_rate (RateLimiter DEFAULT_RATE_LIMIT DEFAULT_RATE_WINDOW) + 1)"
proof -
  let ?R = "RateLimiter DEFAULT_RATE_LIMIT DEFAULT_RATE_WINDOW"
  have h1: "rl_window ?R = DEFAULT_RATE_WINDOW"
    and h2: "rl_rate ?R \<in> \<nat>" and h3: "rl_rate ?R \<le> 1024"
    and h4: "map_of (rl_tokens ?R) 11 = None" and h5: "map_of (rl_last_update ?R) 11 = None"
    by (simp_all add: RateLimiter_def DEFAULT_RATE_LIMIT_def)
  have h6: "timed_loop quiet_loop"
    by (simp add: quiet_loop_def timed_loop_def on_grid_def)
  from frames_within_one_second_bound [OF h1 h2 h3 h4 h5 h6, of 1073741824] h1 h2 h3 h4 h5 h6
  show ?thesis
    by simp
qed

text \<open>
  The bound \<open>rate + 1\<close> fails for the default rate of 100. The bucket of a new
  connection holds 100 tokens: the gate allows 100 times at one clock reading, and
  each time a frame is there at once. The gates 1/64 s and 1/32 s later find 1.5625
  tokens refilled each time, and a frame follows each. All numbers are floats and
  no operation rounds; the 102 frames are received within 1/32 s.
\<close>

theorem more_than_rate_plus_one_counterexample:
  "timed_loop burst
   \<and> receive_loop (RateLimiter DEFAULT_RATE_LIMIT DEFAULT_RATE_WINDOW) 11 burst
       = (\<lparr>rl_rate = 100, rl_window = 1, rl_tokens = [(11, 9 / 8)],
            rl_last_update = [(11, 1073741824 + 1 / 32)]\<rparr>,
          replicate 100 (Received 1073741824 1073741824)
          @ [Received (1073741824 + 1 / 64) (1073741824 + 1 / 64),
             Received (1073741824 + 1 / 32) (1073741824 + 1 / 32)],
          None)
   \<and> frames_within 1073741824
         (replicate 100 (Received 1073741824 1073741824)
          @ [Received (1073741824 + 1 / 64) (1073741824 + 1 / 64),
             Received (1073741824 + 1 / 32) (1073741824 + 1 / 32)]) = 102
   \<and> \<not> (102 \<le> DEFAULT_RATE_LIMIT + 1)"
  by (simp add: burst_def rate_eval)
section \<open>The authentication lockout\<close>

lemma attempts_read_conv:
  "attempts_read d w = (if map_of d w = None then AList.update w 0 d else d,
                        case map_of d w of None \<Rightarrow> 0 | Some a \<Rightarrow> a)"
  by (simp add: attempts_read_def split: option.splits)

lemma locked_out_is_allowed:
  "map_of (al_lockout_until al) w = Some until \<Longrightarrow> now < until \<Longrightarrow>
     auth_is_allowed al w now = (al, False)"
  by (simp add: auth_is_allowed_def)

lemma handle_auth_locked_out:
  assumes "srv_auth srv = Some validate_token"
    and "map_of (al_lockout_until (srv_auth_rate_limiter srv)) w = Some until"
    and "now < until"
  shows "handle_auth srv w token now now_f =
           (srv, [send_error w RATE_LIMITED ''Too many auth attempts. Try again later.''])"
  using assms by (simp add: handle_auth_def locked_out_is_allowed)

lemma join_authenticate_locked_out:
  assumes "srv_auth srv = Some validate_token"
    and "map_of (al_lockout_until (srv_auth_rate_limiter srv)) w = Some until"
    and "now < until" and "token \<noteq> []"
  shows "join_authenticate srv w (Some token) now now_f =
           (srv, [send_error w RATE_LIMITED ''Too many auth attempts. Try again later.''],
            Rejected)"
  using assms by (simp add: join_authenticate_def locked_out_is_allowed)

lemma attempt_step_locked_out:
  assumes "srv_auth srv = Some validate_token"
    and "map_of (al_lockout_until (srv_auth_rate_limiter srv)) w = Some until"
    and "check_time a < until" and "is_attempt a"
  shows "attempt_step srv w a =
           (srv, [send_error w RATE_LIMITED ''Too many auth attempts. Try again later.''])"
  using assms
  by (cases a) (simp_all add: handle_auth_locked_out join_authenticate_locked_out)

lemma attempts_run_locked_out:
  assumes "srv_auth srv = Some validate_token"
    and "map_of (al_lockout_until (srv_auth_rate_limiter srv)) w = Some until"
    and "\<forall>a \<in> set later. is_attempt a \<and> check_time a < until"
  shows "attempts_run srv w later =
           (srv, map (\<lambda>a. send_error w RATE_LIMITED ''Too many auth attempts. Try again later.'')
                   later)"
  using assms(3)
proof (induction later)
  case Nil
  then show ?case by simp
next
  case (Cons a later)
  then show ?case
    by (simp add: attempt_step_locked_out [OF assms(1,2)])
qed

lemma after_failure_props:
  assumes "map_of (al_lockout_until al) w = None"
  shows "attempts_of (after_failure al w now now_f) w = attempts_of al w + 1"
    and "al_max_attempts (after_failure al w now now_f) = al_max_attempts al"
    and "al_lockout_seconds (after_failure al w now now_f) = al_lockout_seconds al"
    and "map_of (al_lockout_until (after_failure al w now now_f)) w =
           (if attempts_of al w + 1 \<ge> al_max_attempts al
            then Some (now_f + al_lockout_seconds al) else None)"
  using assms
  by (auto simp: after_failure_def auth_is_allowed_def record_failure_def attempts_read_conv
      attempts_of_def Let_def update_conv' split: option.splits)

lemma allowed_when_below_limit:
  assumes "map_of (al_lockout_until al) w = None" and "attempts_of al w < al_max_attempts al"
  shows "snd (auth_is_allowed al w now)"
  using assms
  by (auto simp: auth_is_allowed_def attempts_read_conv attempts_of_def split: option.splits)

lemma attempt_step_failure:
  assumes "srv_auth srv = Some validate_token" and "validate_token (token_of a) = None"
    and "is_attempt a"
    and "map_of (al_lockout_until (srv_auth_rate_limiter srv)) w = None"
    and "attempts_of (srv_auth_rate_limiter srv) w < al_max_attempts (srv_auth_rate_limiter srv)"
  shows "attempt_step srv w a =
           (srv\<lparr>srv_auth_rate_limiter :=
                   after_failure (srv_auth_rate_limiter srv) w (check_time a) (failure_time a),
                 auth_calls := auth_calls srv @ [token_of a]\<rparr>,
            [send_error w AUTHENTICATION_FAILED ''Invalid authentication token.''])"
proof -
  have "snd (auth_is_allowed (srv_auth_rate_limiter srv) w (check_time a))"
    by (rule allowed_when_below_limit [OF assms(4,5)])
  then obtain al where al: "auth_is_allowed (srv_auth_rate_limiter srv) w (check_time a) = (al, True)"
    by (cases "auth_is_allowed (srv_auth_rate_limiter srv) w (check_time a)") auto
  with assms(1,2,3) show ?thesis
    by (cases a) (simp_all add: handle_auth_def join_authenticate_def after_failure_def)
qed

lemma failures_run:
  assumes "srv_auth srv = Some validate_token"
    and "\<forall>a \<in> set fails. is_attempt a \<and> validate_token (token_of a) = None"
    and "map_of (al_lockout_until (srv_auth_rate_limiter srv)) w = None"
    and "attempts_of (srv_auth_rate_limiter srv) w + int (length fails)
           \<le> al_max_attempts (srv_auth_rate_limiter srv)"
    and "fails \<noteq> []"
  shows "\<exists>srv'. attempts_run srv w fails =
              (srv', map (\<lambda>a. send_error w AUTHENTICATION_FAILED ''Invalid authentication token.'')
                       fails)
          \<and> srv_auth srv' = srv_auth srv
          \<and> auth_calls srv' = auth_calls srv @ map token_of fails
          \<and> al_max_attempts (srv_auth_rate_limiter srv') = al_max_attempts (srv_auth_rate_limiter srv)
          \<and> al_lockout_seconds (srv_auth_rate_limiter srv')
              = al_lockout_seconds (srv_auth_rate_limiter srv)
          \<and> attempts_of (srv_auth_rate_limiter srv') w
              = attempts_of (srv_auth_rate_limiter srv) w + int (length fails)
          \<and> map_of (al_lockout_until (srv_auth_rate_limiter srv')) w =
               (if attempts_of (srv_auth_rate_limiter srv) w + int (length fails)
                     \<ge> al_max_attempts (srv_auth_rate_limiter srv)
                then Some (failure_time (last fails) + al_lockout_seconds (srv_auth_rate_limiter srv))
                else None)"
  using assms
proof (induction fails arbitrary: srv)
  case Nil
  then show ?case by simp
next
  case (Cons a fails)
  let ?al = "srv_auth_rate_limiter srv"
  let ?srv1 = "srv\<lparr>srv_auth_rate_limiter := after_failure ?al w (check_time a) (failure_time a),
                    auth_calls := auth_calls srv @ [token_of a]\<rparr>"
  from Cons.prems have below: "attempts_of ?al w < al_max_attempts ?al"
    by simp
  from Cons.prems(2) have step: "attempt_step srv w a =
      (?srv1, [send_error w AUTHENTICATION_FAILED ''Invalid authentication token.''])"
    by (intro attempt_step_failure [OF Cons.prems(1) _ _ Cons.prems(3) below]) simp_all
  note props = after_failure_props [OF Cons.prems(3), of "check_time a" "failure_time a"]
  show ?case
  proof (cases "fails = []")
    case True
    with step props show ?thesis
      by simp
  next
    case False
    from Cons.prems(4) False have more: "attempts_of ?al w + 1 < al_max_attempts ?al"
      by (cases fails) auto
    have "\<exists>srv'. attempts_run ?srv1 w fails =
              (srv', map (\<lambda>a. send_error w AUTHENTICATION_FAILED ''Invalid authentication token.'')
                       fails)
          \<and> srv_auth srv' = srv_auth ?srv1
          \<and> auth_calls srv' = auth_calls ?srv1 @ map token_of fails
          \<and> al_max_attempts (srv_auth_rate_limiter srv') = al_max_attempts (srv_auth_rate_limiter ?srv1)
          \<and> al_lockout_seconds (srv_auth_rate_limiter srv')
              = al_lockout_seconds (srv_auth_rate_limiter ?srv1)
          \<and> attempts_of (srv_auth_rate_limiter srv') w
              = attempts_of (srv_auth_rate_limiter ?srv1) w + int (length fails)
          \<and> map_of (al_lockout_until (srv_auth_rate_limiter srv')) w =
               (if attempts_of (srv_auth_rate_limiter ?srv1) w + int (length fails)
                     \<ge> al_max_attempts (srv_auth_rate_limiter ?srv1)
                then Some (failure_time (last fails) + al_lockout_seconds (srv_auth_rate_limiter ?srv1))
                else None)"
      using Cons.prems False more props
      by (intro Cons.IH) simp_all
    then obtain srv' where
      run: "attempts_run ?srv1 w fails =
              (srv', map (\<lambda>a. send_error w AUTHENTICATION_FAILED ''Invalid authentication token.'')
                       fails)"
      and rest: "srv_auth srv' = srv_auth ?srv1"
        "auth_calls srv' = auth_calls ?srv1 @ map token_of fails"
        "al_max_attempts (srv_auth_rate_limiter srv') = al_max_attempts (srv_auth_rate_limiter ?srv1)"
        "al_lockout_seconds (srv_auth_rate_limiter srv')
              = al_lockout_seconds (srv_auth_rate_limiter ?srv1)"
        "attempts_of (srv_auth_rate_limiter srv') w
              = attempts_of (srv_auth_rate_limiter ?srv1) w + int (length fails)"
        "map_of (al_lockout_until (srv_auth_rate_limiter srv')) w =
               (if attempts_of (srv_auth_rate_limiter ?srv1) w + int (length fails)
                     \<ge> al_max_attempts (srv_auth_rate_limiter ?srv1)
                then Some (failure_time (last fails) + al_lockout_seconds (srv_auth_rate_limiter ?srv1))
                else None)"
      by blast
    from step run rest props False show ?thesis
      by (simp add: add.assoc)
  qed
qed

lemma success_clears:
  assumes "srv_auth srv = Some validate_token" and "validate_token token = Some u"
    and "snd (auth_is_allowed (srv_auth_rate_limiter srv) w now)"
  shows "map_of (al_attempts (srv_auth_rate_limiter (fst (handle_auth srv w token now now_f)))) w = None
       \<and> map_of (al_lockout_until (srv_auth_rate_limiter (fst (handle_auth srv w token now now_f)))) w = None
       \<and> attempts_of (srv_auth_rate_limiter (fst (handle_auth srv w token now now_f))) w = 0"
  using assms
  by (cases "auth_is_allowed (srv_auth_rate_limiter srv) w now")
     (auto simp: handle_auth_def bind_user_def record_success_def attempts_of_def Let_def
        delete_conv' split: prod.splits)


text \<open>
  C8. On a WebSocket with no failures counted and no lockout, five attempts whose
  tokens the provider refuses are each answered with AUTHENTICATION_FAILED, and the
  fifth locks the WebSocket until 300 seconds after its failure was recorded.
  Every attempt checked before that time, by an \<open>auth\<close> message or by a \<open>join\<close> with
  a token, is answered with RATE_LIMITED and leaves the server as it was: the
  provider is not called, whatever the token. A token the provider accepts clears
  the failure count and any lockout entry.
\<close>

theorem auth_lockout_after_max_failures:
  assumes "srv_auth srv = Some validate_token"
    and "al_max_attempts (srv_auth_rate_limiter srv) = MAX_AUTH_ATTEMPTS"
    and "al_lockout_seconds (srv_auth_rate_limiter srv) = AUTH_LOCKOUT_SECONDS"
    and "map_of (al_lockout_until (srv_auth_rate_limiter srv)) w = None"
    and "attempts_of (srv_auth_rate_limiter srv) w = 0"
    and "length fails = 5"
    and "\<forall>a \<in> set fails. is_attempt a \<and> validate_token (token_of a) = None"
    and "\<forall>a \<in> set later. is_attempt a \<and> check_time a < failure_time (last fails) + 300"
  shows "(\<exists>srv5.
           attempts_run srv w fails =
             (srv5, map (\<lambda>a. send_error w AUTHENTICATION_FAILED ''Invalid authentication token.'')
                      fails)
           \<and> auth_calls srv5 = auth_calls srv @ map token_of fails
           \<and> map_of (al_lockout_until (srv_auth_rate_limiter srv5)) w
               = Some (failure_time (last fails) + 300)
           \<and> attempts_run srv5 w later =
               (srv5, map (\<lambda>a. send_error w RATE_LIMITED ''Too many auth attempts. Try again later.'')
                        later))
       \<and> (\<forall>s token u now now_f.
             srv_auth s = Some validate_token \<and> validate_token token = Some u
             \<and> snd (auth_is_allowed (srv_auth_rate_limiter s) w now)
             \<longrightarrow> attempts_of (srv_auth_rate_limiter (fst (handle_auth s w token now now_f))) w = 0
                 \<and> map_of (al_lockout_until
                             (srv_auth_rate_limiter (fst (handle_auth s w token now now_f)))) w
                     = None)"
proof (intro conjI allI impI)
  from assms(6) have ne: "fails \<noteq> []"
    by auto
  from assms(2,5,6) have le: "attempts_of (srv_auth_rate_limiter srv) w + int (length fails)
      \<le> al_max_attempts (srv_auth_rate_limiter srv)"
    by (simp add: MAX_AUTH_ATTEMPTS_def)
  from failures_run [OF assms(1) assms(7) assms(4) le ne] obtain srv5 where
    run: "attempts_run srv w fails =
             (srv5, map (\<lambda>a. send_error w AUTHENTICATION_FAILED ''Invalid authentication token.'')
                      fails)"
    and au: "srv_auth srv5 = srv_auth srv"
    and calls: "auth_calls srv5 = auth_calls srv @ map token_of fails"
    and lock: "map_of (al_lockout_until (srv_auth_rate_limiter srv5)) w =
               (if attempts_of (srv_auth_rate_limiter srv) w + int (length fails)
                     \<ge> al_max_attempts (srv_auth_rate_limiter srv)
                then Some (failure_time (last fails) + al_lockout_seconds (srv_auth_rate_limiter srv))
                else None)"
    by blast
  from lock assms(2,3,5,6) have locked:
    "map_of (al_lockout_until (srv_auth_rate_limiter srv5)) w
       = Some (failure_time (last fails) + 300)"
    by (simp add: MAX_AUTH_ATTEMPTS_def AUTH_LOCKOUT_SECONDS_def)
  from au assms(1) have au5: "srv_auth srv5 = Some validate_token"
    by simp
  have "attempts_run srv5 w later =
          (srv5, map (\<lambda>a. send_error w RATE_LIMITED ''Too many auth attempts. Try again later.'')
                   later)"
    by (rule attempts_run_locked_out [OF au5 locked assms(8)])
  with run calls locked show "\<exists>srv5.
           attempts_run srv w fails =
             (srv5, map (\<lambda>a. send_error w AUTHENTICATION_FAILED ''Invalid authentication token.'')
                      fails)
           \<and> auth_calls srv5 = auth_calls srv @ map token_of fails
           \<and> map_of (al_lockout_until (srv_auth_rate_limiter srv5)) w
               = Some (failure_time (last fails) + 300)
           \<and> attempts_run srv5 w later =
               (srv5, map (\<lambda>a. send_error w RATE_LIMITED ''Too many auth attempts. Try again later.'')
                        later)"
    by blast
next
  fix s :: server and token u now now_f
  assume a: "srv_auth s = Some validate_token \<and> validate_token token = Some u
             \<and> snd (auth_is_allowed (srv_auth_rate_limiter s) w now)"
  then have "srv_auth s = Some validate_token" "validate_token token = Some u"
    "snd (auth_is_allowed (srv_auth_rate_limiter s) w now)"
    by simp_all
  note c = success_clears [OF this, of now_f]
  from c show "attempts_of (srv_auth_rate_limiter (fst (handle_auth s w token now now_f))) w = 0"
    by simp
  from c show "map_of (al_lockout_until
                             (srv_auth_rate_limiter (fst (handle_auth s w token now now_f)))) w
                     = None"
    by simp
qed

lemmas auth_eval =
  auth_server_def CollabkitServer_def AuthRateLimiter_def MAX_AUTH_ATTEMPTS_def
  AUTH_LOCKOUT_SECONDS_def demo_validate_token_def attempts_of_def

theorem auth_lockout_after_max_failures_witness:
  "srv_auth auth_server = Some demo_validate_token
   \<and> length five_bad = 5
   \<and> (\<exists>srv5.
         attempts_run auth_server 11 five_bad =
           (srv5, replicate 5 (Send 11 (ErrorMessage AUTHENTICATION_FAILED
                                          ''Invalid authentication token.'')))
         \<and> auth_calls srv5 = [''b1'', ''b2'', ''b3'', ''b4'', ''b5'']
         \<and> map_of (al_lockout_until (srv_auth_rate_limiter srv5)) 11 = Some 305
         \<and> attempts_run srv5 11 during_lockout =
             (srv5, replicate 2 (Send 11 (ErrorMessage RATE_LIMITED
                                            ''Too many auth attempts. Try again later.''))))
   \<and> demo_validate_token ''good'' = Some carol
   \<and> snd (auth_is_allowed (srv_auth_rate_limiter auth_server) 11 7)
   \<and> attempts_of (srv_auth_rate_limiter (fst (handle_auth auth_server 11 ''good'' 7 7))) 11 = 0"
proof -
  have h1: "srv_auth auth_server = Some demo_validate_token"
    and h2: "al_max_attempts (srv_auth_rate_limiter auth_server) = MAX_AUTH_ATTEMPTS"
    and h3: "al_lockout_seconds (srv_auth_rate_limiter auth_server) = AUTH_LOCKOUT_SECONDS"
    and h4: "map_of (al_lockout_until (srv_auth_rate_limiter auth_server)) 11 = None"
    and h5: "attempts_of (srv_auth_rate_limiter auth_server) 11 = 0"
    by (simp_all add: auth_eval)
  have h6: "length five_bad = 5"
    by (simp add: five_bad_def)
  have h7: "\<forall>a \<in> set five_bad. is_attempt a \<and> demo_validate_token (token_of a) = None"
    by (simp add: five_bad_def demo_validate_token_def)
  have h8: "\<forall>a \<in> set during_lockout.
              is_attempt a \<and> check_time a < failure_time (last five_bad) + 300"
    by (simp add: during_lockout_def five_bad_def)
  have g: "demo_validate_token ''good'' = Some carol"
    by (simp add: demo_validate_token_def)
  have ok: "snd (auth_is_allowed (srv_auth_rate_limiter auth_server) 11 7)"
    by (simp add: auth_eval auth_is_allowed_def attempts_read_def)
  note T = auth_lockout_after_max_failures [OF h1 h2 h3 h4 h5 h6 h7 h8]
  from T obtain srv5 where
    "attempts_run auth_server 11 five_bad =
             (srv5, map (\<lambda>a. send_error 11 AUTHENTICATION_FAILED ''Invalid authentication token.'')
                      five_bad)"
    "auth_calls srv5 = auth_calls auth_server @ map token_of five_bad"
    "map_of (al_lockout_until (srv_auth_rate_limiter srv5)) 11
               = Some (failure_time (last five_bad) + 300)"
    "attempts_run srv5 11 during_lockout =
               (srv5, map (\<lambda>a. send_error 11 RATE_LIMITED ''Too many auth attempts. Try again later.'')
                        during_lockout)"
    by blast
  then have first: "\<exists>srv5.
         attempts_run auth_server 11 five_bad =
           (srv5, replicate 5 (Send 11 (ErrorMessage AUTHENTICATION_FAILED
                                          ''Invalid authentication token.'')))
         \<and> auth_calls srv5 = [''b1'', ''b2'', ''b3'', ''b4'', ''b5'']
         \<and> map_of (al_lockout_until (srv_auth_rate_limiter srv5)) 11 = Some 305
         \<and> attempts_run srv5 11 during_lockout =
             (srv5, replicate 2 (Send 11 (ErrorMessage RATE_LIMITED
                                            ''Too many auth attempts. Try again later.'')))"
    by (intro exI [of _ srv5])
       (simp add: five_bad_def during_lockout_def send_error_def auth_eval eval_nat_numeral)
  from T h1 g ok
  have "attempts_of (srv_auth_rate_limiter (fst (handle_auth auth_server 11 ''good'' 7 7))) 11 = 0"
    by blast
  with h1 h6 first g ok show ?thesis
    by simp
qed

section \<open>Add wins in the OR-Set\<close>

lemma py_in_str: "py_in py_eq (JStr t) xs \<longleftrightarrow> JStr t \<in> set xs"
  by (auto simp: py_in_def list_ex_iff)

lemma py_eq_refl: "hashable v \<Longrightarrow> py_eq v v"
  by (cases v) auto

lemma set_set_add: "set (set_add eq x xs) = (if py_in eq x xs then set xs else insert x (set xs))"
  by (simp add: set_add_def)

lemma py_in_set_add_same: "eq x x \<Longrightarrow> py_in eq x (set_add eq x xs)"
  by (auto simp: set_add_def py_in_def)

lemma py_in_set_add_mono: "py_in eq x xs \<Longrightarrow> py_in eq x (set_add eq y xs)"
  by (auto simp: set_add_def py_in_def)

lemma add_tags_subset:
  "add_tags removed tags = (removed', outcome) \<Longrightarrow> set removed' \<subseteq> set removed \<union> set tags"
proof (induction tags arbitrary: removed)
  case Nil
  then show ?case by simp
next
  case (Cons tag tags)
  show ?case
  proof (cases "hashable tag")
    case True
    with Cons.prems have "add_tags (set_add py_eq tag removed) tags = (removed', outcome)"
      by simp
    from Cons.IH [OF this] show ?thesis
      by (auto simp: set_set_add split: if_splits)
  next
    case False
    with Cons.prems show ?thesis by auto
  qed
qed

lemma carried_tags_Nil: "carried_tags [] = {}"
  by (simp add: carried_tags_def)

lemma carried_tags_Cons:
  "carried_tags ((op, outcome) # calls) =
     (if op_type op = ''remove'' \<and> outcome \<noteq> Inr False
      then (case remove_tags (op_value op) of Inl e \<Rightarrow> {} | Inr tags \<Rightarrow> set tags) else {})
     \<union> carried_tags calls"
  by (auto simp: carried_tags_def split: sum.splits)

lemma os_inv_empty: "os_inv H T (ORSet n)"
  by (simp add: os_inv_def ORSet_def)

lemma os_inv_mono: "os_inv H T s \<Longrightarrow> T \<subseteq> T' \<Longrightarrow> os_inv H T' s"
  unfolding os_inv_def by blast

text \<open>A call of \<^verbatim>\<open>_apply_add\<close> that raises leaves at most a new, empty bucket.\<close>

lemma os_inv_new_bucket:
  assumes "os_inv H T s" and "map_of (elements s) h = None"
  shows "os_inv H T (s\<lparr>elements := AList.update h [] (elements s)\<rparr>)"
proof -
  let ?s = "s\<lparr>elements := AList.update h [] (elements s)\<rparr>"
  have els: "map_of (elements ?s) = (map_of (elements s))(h \<mapsto> [])"
    by (simp add: update_conv')
  have bk: "\<And>k. bucket ?s k = bucket s k"
    using assms(2) by (auto simp: bucket_def update_conv')
  from assms(1) have d: "distinct (map fst (elements s))"
    and r: "set (removed_tags s) \<subseteq> T"
    and p: "\<And>h b t w. map_of (elements s) h = Some b \<Longrightarrow> (t, w) \<in> set b \<Longrightarrow>
           H w = h \<and> hashable w
           \<and> (\<exists>c \<in> set (operations s). op_type c = ''add'' \<and> op_id c = t \<and> op_value c = w)"
    and a: "\<And>c. c \<in> set (operations s) \<Longrightarrow> op_type c = ''add'' \<Longrightarrow>
           (op_id c, op_value c) \<in> set (bucket s (H (op_value c)))"
    by (auto simp: os_inv_def)
  have 1: "distinct (map fst (elements ?s))"
    using d by (simp add: distinct_update)
  have 2: "set (removed_tags ?s) \<subseteq> T"
    using r by simp
  have 3: "H w = k \<and> hashable w
           \<and> (\<exists>c \<in> set (operations ?s). op_type c = ''add'' \<and> op_id c = t \<and> op_value c = w)"
    if "map_of (elements ?s) k = Some b" and "(t, w) \<in> set b" for k b t w
  proof (cases "k = h")
    case True
    with that show ?thesis by (simp add: update_conv')
  next
    case False
    with that p [of k b t w] show ?thesis by (simp add: update_conv')
  qed
  have 4: "(op_id c, op_value c) \<in> set (bucket ?s (H (op_value c)))"
    if "c \<in> set (operations ?s)" and "op_type c = ''add''" for c
    using that a [of c] by (simp add: bk)
  from 1 2 3 4 show ?thesis
    unfolding os_inv_def by blast
qed

lemma apply_add_raises:
  assumes "os_inv H T s" and "apply_add H s op = (s', Inl e)"
  shows "os_inv H T s' \<and> operations s' = operations s"
proof -
  let ?h = "H (op_value op)"
  from assms(2) have s': "s' = (if map_of (elements s) ?h = None
                then s\<lparr>elements := AList.update ?h [] (elements s)\<rparr> else s)"
    by (auto simp: apply_add_def Let_def split: if_splits)
  show ?thesis
  proof (cases "map_of (elements s) ?h = None")
    case True
    with s' os_inv_new_bucket [OF assms(1) True] show ?thesis by simp
  next
    case False
    with s' assms(1) show ?thesis by simp
  qed
qed

lemma apply_add_returns:
  assumes "os_inv H T s" and "apply_add H s op = (s', Inr u)" and "op_type op = ''add''"
    and "\<not> has_seen s op"
  shows "os_inv H T (record_operation s' op)"
proof -
  let ?v = "op_value op" and ?h = "H (op_value op)"
  let ?b = "bucket s ?h @ [(op_id op, ?v)]"
  let ?s1 = "if map_of (elements s) ?h = None
                then s\<lparr>elements := AList.update ?h [] (elements s)\<rparr> else s"
  from assms(1) have d: "distinct (map fst (elements s))"
    and r: "set (removed_tags s) \<subseteq> T"
    and p: "\<And>h b t w. map_of (elements s) h = Some b \<Longrightarrow> (t, w) \<in> set b \<Longrightarrow>
           H w = h \<and> hashable w
           \<and> (\<exists>c \<in> set (operations s). op_type c = ''add'' \<and> op_id c = t \<and> op_value c = w)"
    and a: "\<And>c. c \<in> set (operations s) \<Longrightarrow> op_type c = ''add'' \<Longrightarrow>
           (op_id c, op_value c) \<in> set (bucket s (H (op_value c)))"
    by (auto simp: os_inv_def)
  have b1: "bucket ?s1 ?h = bucket s ?h"
    by (simp add: bucket_def update_conv')
  have fresh: "\<not> py_in pair_eq (op_id op, ?v) (bucket s ?h)"
  proof
    assume "py_in pair_eq (op_id op, ?v) (bucket s ?h)"
    then obtain t w where tw: "(t, w) \<in> set (bucket s ?h)" "t = op_id op"
      by (auto simp: py_in_def list_ex_iff pair_eq_def)
    then obtain b0 where "map_of (elements s) ?h = Some b0" "(t, w) \<in> set b0"
      by (cases "map_of (elements s) ?h") (auto simp: bucket_def)
    from p [OF this] tw(2) obtain c where "c \<in> set (operations s)" "op_id c = op_id op"
      by blast
    with assms(4) show False
      by (auto simp: has_seen_def list_ex_iff)
  qed
  from assms(2) have hv: "hashable ?v"
    and s': "s' = ?s1\<lparr>elements :=
                      AList.update ?h (set_add pair_eq (op_id op, ?v) (bucket ?s1 ?h))
                        (elements ?s1)\<rparr>"
    by (auto simp: apply_add_def Let_def split: if_splits)
  have sb: "set_add pair_eq (op_id op, ?v) (bucket ?s1 ?h) = ?b"
    unfolding b1 using fresh by (simp add: set_add_def)
  have els: "map_of (elements (record_operation s' op)) = (map_of (elements s))(?h \<mapsto> ?b)"
    unfolding s' sb by (auto simp: record_operation_def update_conv')
  have keys: "distinct (map fst (elements (record_operation s' op)))"
    unfolding s' using d by (simp add: record_operation_def distinct_update)
  have ops: "operations (record_operation s' op) = operations s @ [op]"
    unfolding s' by (simp add: record_operation_def)
  have rem: "removed_tags (record_operation s' op) = removed_tags s"
    unfolding s' by (simp add: record_operation_def)
  have bk: "\<And>h. bucket (record_operation s' op) h = (if h = ?h then ?b else bucket s h)"
    by (simp add: bucket_def els)
  have 2: "set (removed_tags (record_operation s' op)) \<subseteq> T"
    using r by (simp add: rem)
  have 3: "H w = h \<and> hashable w
           \<and> (\<exists>c \<in> set (operations (record_operation s' op)).
                 op_type c = ''add'' \<and> op_id c = t \<and> op_value c = w)"
    if "map_of (elements (record_operation s' op)) h = Some b" and "(t, w) \<in> set b" for h b t w
  proof (cases "h = ?h")
    case False
    with that p [of h b t w] show ?thesis
      by (auto simp: els ops)
  next
    case True
    with that have "(t, w) = (op_id op, ?v) \<or> (t, w) \<in> set (bucket s ?h)"
      by (auto simp: els)
    then show ?thesis
    proof
      assume "(t, w) = (op_id op, ?v)"
      with True hv assms(3) show ?thesis
        by (auto simp: ops)
    next
      assume "(t, w) \<in> set (bucket s ?h)"
      then obtain b0 where "map_of (elements s) ?h = Some b0" "(t, w) \<in> set b0"
        by (cases "map_of (elements s) ?h") (auto simp: bucket_def)
      with p [of ?h b0 t w] True show ?thesis
        by (auto simp: ops)
    qed
  qed
  have 4: "(op_id c, op_value c) \<in> set (bucket (record_operation s' op) (H (op_value c)))"
    if "c \<in> set (operations (record_operation s' op))" and "op_type c = ''add''" for c
  proof (cases "c = op")
    case True
    then show ?thesis
      by (simp add: bk)
  next
    case False
    with that a [of c] show ?thesis
      by (auto simp: ops bk)
  qed
  from keys 2 3 4 show ?thesis
    unfolding os_inv_def by blast
qed

text \<open>
  A call of \<^verbatim>\<open>_apply_remove\<close>, whether it returns or raises, changes nothing but
  \<^verbatim>\<open>_removed_tags\<close>, and puts only tags of the operation there.
\<close>

lemma apply_remove_state:
  assumes "apply_remove s op = (s', outcome)"
  shows "elements s' = elements s \<and> operations s' = operations s
         \<and> set (removed_tags s') \<subseteq> set (removed_tags s)
              \<union> (case remove_tags (op_value op) of Inl e \<Rightarrow> {} | Inr tags \<Rightarrow> set tags)"
proof (cases "remove_tags (op_value op)")
  case (Inl e)
  with assms show ?thesis
    by (auto simp: apply_remove_def)
next
  case (Inr tags)
  obtain removed out where at: "add_tags (removed_tags s) tags = (removed, out)"
    by (cases "add_tags (removed_tags s) tags")
  with assms Inr have s': "s' = s\<lparr>removed_tags := removed\<rparr>"
    by (simp add: apply_remove_def)
  from add_tags_subset [OF at] show ?thesis
    by (simp add: s' Inr)
qed

lemma os_inv_removed:
  assumes "os_inv H T s" and "elements s' = elements s" and "operations s' = operations s"
    and "set (removed_tags s') \<subseteq> T"
  shows "os_inv H T s'"
proof -
  have "bucket s' = bucket s"
    by (rule ext) (simp add: bucket_def assms(2))
  with assms show ?thesis
    unfolding os_inv_def by simp
qed

lemma os_inv_record_remove:
  assumes "os_inv H T s" and "op_type op = ''remove''"
  shows "os_inv H T (record_operation s op)"
proof -
  have ops: "operations (record_operation s op) = operations s @ [op]"
    and els: "elements (record_operation s op) = elements s"
    and rem: "removed_tags (record_operation s op) = removed_tags s"
    by (simp_all add: record_operation_def)
  have bk: "\<And>h. bucket (record_operation s op) h = bucket s h"
    by (simp add: bucket_def els)
  from assms(1) have d: "distinct (map fst (elements s))"
    and r: "set (removed_tags s) \<subseteq> T"
    and p: "\<And>h b t w. map_of (elements s) h = Some b \<Longrightarrow> (t, w) \<in> set b \<Longrightarrow>
           H w = h \<and> hashable w
           \<and> (\<exists>c \<in> set (operations s). op_type c = ''add'' \<and> op_id c = t \<and> op_value c = w)"
    and a: "\<And>c. c \<in> set (operations s) \<Longrightarrow> op_type c = ''add'' \<Longrightarrow>
           (op_id c, op_value c) \<in> set (bucket s (H (op_value c)))"
    by (auto simp: os_inv_def)
  have 1: "distinct (map fst (elements (record_operation s op)))"
    using d by (simp add: els)
  have 2: "set (removed_tags (record_operation s op)) \<subseteq> T"
    using r by (simp add: rem)
  have 3: "H w = h \<and> hashable w
           \<and> (\<exists>c \<in> set (operations (record_operation s op)).
                 op_type c = ''add'' \<and> op_id c = t \<and> op_value c = w)"
    if "map_of (elements (record_operation s op)) h = Some b" and "(t, w) \<in> set b" for h b t w
    using that p [of h b t w] by (auto simp: els ops)
  have 4: "(op_id c, op_value c) \<in> set (bucket (record_operation s op) (H (op_value c)))"
    if "c \<in> set (operations (record_operation s op))" and "op_type c = ''add''" for c
  proof (cases "c = op")
    case True
    with that(2) assms(2) show ?thesis
      by simp
  next
    case False
    with that a [of c] show ?thesis
      by (auto simp: ops bk)
  qed
  from 1 2 3 4 show ?thesis
    unfolding os_inv_def by blast
qed

text \<open>One call of \<^verbatim>\<open>apply\<close>, whatever its outcome.\<close>

lemma os_inv_apply:
  assumes "os_inv H T s" and "apply_os H s op = (s', outcome)"
  shows "os_inv H (T \<union> carried_tags [(op, outcome)]) s'
         \<and> operations s' = (if outcome = Inr True then operations s @ [op] else operations s)"
proof (cases "has_seen s op")
  case True
  with assms show ?thesis
    by (auto simp: apply_os_def intro: os_inv_mono)
next
  case ns: False
  show ?thesis
  proof (cases "op_type op = ''add''")
    case add: True
    obtain s1 out where ap: "apply_add H s op = (s1, out)"
      by (cases "apply_add H s op")
    show ?thesis
    proof (cases out)
      case (Inl e)
      with assms(2) ns add ap have "s' = s1" "outcome = Inl e"
        by (simp_all add: apply_os_def)
      with apply_add_raises [OF assms(1) ap [unfolded Inl]] show ?thesis
        by (auto intro: os_inv_mono)
    next
      case (Inr u)
      with assms(2) ns add ap have eq: "s' = record_operation s1 op" "outcome = Inr True"
        by (simp_all add: apply_os_def)
      from ap Inr have ops: "operations s1 = operations s"
        by (auto simp: apply_add_def Let_def split: if_splits)
      from apply_add_returns [OF assms(1) ap [unfolded Inr] add ns] eq ops show ?thesis
        by (auto simp: record_operation_def intro: os_inv_mono)
    qed
  next
    case nadd: False
    show ?thesis
    proof (cases "op_type op = ''remove''")
      case False
      with assms nadd ns show ?thesis
        by (auto simp: apply_os_def intro: os_inv_mono)
    next
      case rm: True
      obtain s1 out where ap: "apply_remove s op = (s1, out)"
        by (cases "apply_remove s op")
      let ?T = "T \<union> carried_tags [(op, outcome)]"
      from assms(2) ns nadd rm ap have nf: "outcome \<noteq> Inr False"
        by (auto simp: apply_os_def split: sum.splits)
      from apply_remove_state [OF ap] have st: "elements s1 = elements s"
        "operations s1 = operations s"
        "set (removed_tags s1) \<subseteq> set (removed_tags s)
              \<union> (case remove_tags (op_value op) of Inl e \<Rightarrow> {} | Inr tags \<Rightarrow> set tags)"
        by simp_all
      from assms(1) have "set (removed_tags s) \<subseteq> T"
        by (simp add: os_inv_def)
      with st(3) have sub: "set (removed_tags s1) \<subseteq> ?T"
        using rm nf by (auto simp: carried_tags_Cons carried_tags_Nil)
      have inv0: "os_inv H ?T s"
        using assms(1) by (rule os_inv_mono) simp
      have inv1: "os_inv H ?T s1"
        using inv0 st(1,2) sub by (rule os_inv_removed)
      show ?thesis
      proof (cases out)
        case (Inl e)
        with assms(2) ns nadd rm ap have "s' = s1" "outcome = Inl e"
          by (simp_all add: apply_os_def)
        with inv1 st(2) show ?thesis by simp
      next
        case (Inr u)
        with assms(2) ns nadd rm ap have eq: "s' = record_operation s1 op" "outcome = Inr True"
          by (simp_all add: apply_os_def)
        from os_inv_record_remove [OF inv1 rm] eq st(2) show ?thesis
          by (simp add: record_operation_def)
      qed
    qed
  qed
qed

text \<open>A run of calls.\<close>

lemma os_inv_apply_all:
  assumes "os_inv H T s" and "apply_all_os H s ops = (s', calls)"
  shows "os_inv H (T \<union> carried_tags calls) s'
         \<and> set (operations s') = set (operations s) \<union> {c. (c, Inr True) \<in> set calls}"
  using assms
proof (induction ops arbitrary: s T calls s')
  case Nil
  then show ?case
    by (auto simp: carried_tags_Nil)
next
  case (Cons op ops)
  obtain s1 out where st: "apply_os H s op = (s1, out)"
    by (cases "apply_os H s op")
  obtain s2 rest where run: "apply_all_os H s1 ops = (s2, rest)"
    by (cases "apply_all_os H s1 ops")
  from Cons.prems(2) st run have eq: "s' = s2" "calls = (op, out) # rest"
    by simp_all
  from os_inv_apply [OF Cons.prems(1) st]
  have inv1: "os_inv H (T \<union> carried_tags [(op, out)]) s1"
    and ops1: "operations s1 = (if out = Inr True then operations s @ [op] else operations s)"
    by simp_all
  from Cons.IH [OF inv1 run]
  have inv2: "os_inv H (T \<union> carried_tags [(op, out)] \<union> carried_tags rest) s2"
    and ops2: "set (operations s2) = set (operations s1) \<union> {c. (c, Inr True) \<in> set rest}"
    by simp_all
  have T: "T \<union> carried_tags [(op, out)] \<union> carried_tags rest = T \<union> carried_tags calls"
    unfolding eq by (auto simp: carried_tags_Cons carried_tags_Nil)
  from inv2 have a: "os_inv H (T \<union> carried_tags calls) s'"
    unfolding T eq .
  have b: "set (operations s') = set (operations s) \<union> {c. (c, Inr True) \<in> set calls}"
    unfolding eq ops2 ops1 by auto
  from a b show ?case ..
qed

lemma first_live_Some:
  "first_live removed xs = Some val \<Longrightarrow> \<exists>tag. (tag, val) \<in> set xs \<and> JStr tag \<notin> set removed"
proof -
  assume a: "first_live removed xs = Some val"
  then obtain tag rest where
    f: "filter (\<lambda>(tag, val). \<not> py_in py_eq (JStr tag) removed) xs = (tag, val) # rest"
    by (auto simp: first_live_def split: list.splits)
  then have "(tag, val) \<in> set (filter (\<lambda>(tag, val). \<not> py_in py_eq (JStr tag) removed) xs)"
    by simp
  then show ?thesis
    by (auto simp: py_in_str)
qed

lemma first_live_None:
  "first_live removed xs = None \<Longrightarrow> (tag, val) \<in> set xs \<Longrightarrow> JStr tag \<in> set removed"
proof -
  assume a: "first_live removed xs = None" and m: "(tag, val) \<in> set xs"
  from a have "filter (\<lambda>(tag, val). \<not> py_in py_eq (JStr tag) removed) xs = []"
    by (auto simp: first_live_def split: list.splits)
  with m show ?thesis
    by (auto simp: filter_empty_conv py_in_str)
qed

text \<open>
  \<^verbatim>\<open>value()\<close> on buckets of hashable values returns, and its result holds, for every
  bucket with a live pair, a value equal to the value of a live pair of that bucket.
\<close>

lemma value_loop_os_result:
  assumes "\<forall>xs. set (order xs) = set xs"
    and "\<forall>(h, b) \<in> set bs. \<forall>(t, w) \<in> set b. hashable w"
  shows "\<exists>S. value_loop_os order removed bs acc = Inr S
           \<and> (\<forall>x. py_in py_eq x acc \<longrightarrow> py_in py_eq x S)
           \<and> (\<forall>(h, b) \<in> set bs. (\<exists>(t, w) \<in> set b. JStr t \<notin> set removed)
                 \<longrightarrow> (\<exists>(t, w) \<in> set b. JStr t \<notin> set removed \<and> py_in py_eq w S))"
  using assms(2)
proof (induction bs arbitrary: acc)
  case Nil
  then show ?case by simp
next
  case (Cons hb bs)
  obtain h b where hb: "hb = (h, b)"
    by (cases hb)
  from Cons.prems have hs: "\<forall>(t, w) \<in> set b. hashable w"
    and rest: "\<forall>(h, b) \<in> set bs. \<forall>(t, w) \<in> set b. hashable w"
    by (auto simp: hb)
  show ?case
  proof (cases "first_live removed (order b)")
    case None
    from Cons.IH [OF rest, of acc] obtain S where
      S: "value_loop_os order removed bs acc = Inr S"
      "\<forall>x. py_in py_eq x acc \<longrightarrow> py_in py_eq x S"
      "\<forall>(h, b) \<in> set bs. (\<exists>(t, w) \<in> set b. JStr t \<notin> set removed)
                 \<longrightarrow> (\<exists>(t, w) \<in> set b. JStr t \<notin> set removed \<and> py_in py_eq w S)"
      by blast
    have "\<not> (\<exists>(t, w) \<in> set b. JStr t \<notin> set removed)"
      using first_live_None [OF None] assms(1) by auto
    with S None show ?thesis
      by (auto simp: hb)
  next
    case (Some val)
    from first_live_Some [OF Some] assms(1) obtain tag where
      tag: "(tag, val) \<in> set b" "JStr tag \<notin> set removed"
      by auto
    with hs have hv: "hashable val"
      by auto
    from Cons.IH [OF rest, of "set_add py_eq val acc"] obtain S where
      S: "value_loop_os order removed bs (set_add py_eq val acc) = Inr S"
      "\<forall>x. py_in py_eq x (set_add py_eq val acc) \<longrightarrow> py_in py_eq x S"
      "\<forall>(h, b) \<in> set bs. (\<exists>(t, w) \<in> set b. JStr t \<notin> set removed)
                 \<longrightarrow> (\<exists>(t, w) \<in> set b. JStr t \<notin> set removed \<and> py_in py_eq w S)"
      by blast
    have "py_in py_eq val (set_add py_eq val acc)"
      using hv by (intro py_in_set_add_same py_eq_refl)
    with S(2) have vS: "py_in py_eq val S"
      by blast
    with tag have here: "\<exists>(t, w) \<in> set b. JStr t \<notin> set removed \<and> py_in py_eq w S"
      by auto
    have keep: "\<forall>x. py_in py_eq x acc \<longrightarrow> py_in py_eq x S"
      using S(2) by (blast intro: py_in_set_add_mono)
    have run: "value_loop_os order removed (hb # bs) acc = Inr S"
      using S(1) Some hv by (simp add: hb)
    from run keep here S(3) show ?thesis
      by (auto simp: hb)
  qed
qed

text \<open>
  C6 (as the code has it). Start from an empty OR-Set and call \<open>apply\<close> with any
  operations in any order, the set staying in use when a call raises. Take an add
  operation for \<open>v\<close> for which \<open>apply\<close> returned true, whose tag is in the tag list of
  no remove operation that \<open>apply\<close> did not ignore (it returned true for it or raised
  while adding its tags), and let no other value whose add was applied have the
  hash of \<open>v\<close>. Then \<open>value()\<close> returns a set, and \<^verbatim>\<open>v in value()\<close> holds. The hash is any
  function, and the order in which a bucket is iterated is any order.
\<close>

theorem add_wins:
  assumes "apply_all_os H (ORSet n) ops = (s, calls)"
    and "(a, Inr True) \<in> set calls" and "op_type a = ''add''" and "op_value a = v"
    and "\<forall>(r, outcome) \<in> set calls. op_type r = ''remove'' \<and> outcome \<noteq> Inr False \<longrightarrow>
           (\<forall>tags. remove_tags (op_value r) = Inr tags \<longrightarrow> JStr (op_id a) \<notin> set tags)"
    and "\<forall>(b, outcome) \<in> set calls.
           op_type b = ''add'' \<and> outcome = Inr True \<and> H (op_value b) = H v \<longrightarrow> op_value b = v"
    and "\<forall>xs. set (order xs) = set xs"
  shows "\<exists>S. value_os order s = Inr S \<and> py_in py_eq v S"
proof -
  from os_inv_apply_all [OF os_inv_empty assms(1), of "{}"]
  have inv: "os_inv H (carried_tags calls) s"
    and log: "set (operations s) = {c. (c, Inr True) \<in> set calls}"
    by (simp_all add: ORSet_def)
  from inv have d: "distinct (map fst (elements s))"
    and r: "set (removed_tags s) \<subseteq> carried_tags calls"
    and p: "\<And>h b t w. map_of (elements s) h = Some b \<Longrightarrow> (t, w) \<in> set b \<Longrightarrow>
           H w = h \<and> hashable w
           \<and> (\<exists>c \<in> set (operations s). op_type c = ''add'' \<and> op_id c = t \<and> op_value c = w)"
    and st: "\<And>c. c \<in> set (operations s) \<Longrightarrow> op_type c = ''add'' \<Longrightarrow>
           (op_id c, op_value c) \<in> set (bucket s (H (op_value c)))"
    by (auto simp: os_inv_def)
  have live: "JStr (op_id a) \<notin> set (removed_tags s)"
  proof
    assume "JStr (op_id a) \<in> set (removed_tags s)"
    with r have "JStr (op_id a) \<in> carried_tags calls"
      by blast
    with assms(5) show False
      by (fastforce simp: carried_tags_def)
  qed
  from assms(2) log have "a \<in> set (operations s)"
    by simp
  from st [OF this assms(3)] assms(4) obtain b where
    b: "map_of (elements s) (H v) = Some b" "(op_id a, v) \<in> set b"
    by (cases "map_of (elements s) (H v)") (auto simp: bucket_def)
  then have mem: "(H v, b) \<in> set (elements s)"
    by (auto dest: map_of_SomeD)
  have hs: "\<forall>(h, b) \<in> set (elements s). \<forall>(t, w) \<in> set b. hashable w"
  proof (clarify)
    fix h b t w
    assume "(h, b) \<in> set (elements s)" "(t, w) \<in> set b"
    with d p [of h b t w] show "hashable w"
      by auto
  qed
  from value_loop_os_result [OF assms(7) hs, of "removed_tags s" "[]"] obtain S where
    S: "value_os order s = Inr S"
    and pick: "\<forall>(h, b) \<in> set (elements s). (\<exists>(t, w) \<in> set b. JStr t \<notin> set (removed_tags s))
                 \<longrightarrow> (\<exists>(t, w) \<in> set b. JStr t \<notin> set (removed_tags s) \<and> py_in py_eq w S)"
    by (auto simp: value_os_def)
  from pick mem b(2) live obtain t w where
    tw: "(t, w) \<in> set b" "py_in py_eq w S"
    by blast
  from p [OF b(1) tw(1)] obtain c where
    c: "H w = H v" "c \<in> set (operations s)" "op_type c = ''add''" "op_value c = w"
    by blast
  from c(2) log have "(c, Inr True) \<in> set calls"
    by simp
  with assms(6) c have "w = v"
    by auto
  with S tw(2) show ?thesis
    by blast
qed

lemmas os_eval =
  ORSet_def mk_op_def apply_os_def apply_add_def apply_remove_def has_seen_def bucket_def
  set_add_def py_in_def pair_eq_def record_operation_def vv_update_def demo_hash_def
  colliding_hash_def value_os_def first_live_def Let_def

theorem add_wins_witness:
  "map snd (snd (apply_all_os demo_hash (ORSet ''c'') concurrent_ops))
     = [Inr True, Inl TypeError, Inl TypeError, Inr True, Inr True]
   \<and> removed_tags (fst (apply_all_os demo_hash (ORSet ''c'') concurrent_ops))
       = [JStr ''b1'', JStr ''b0'']
   \<and> (\<exists>S. value_os rev (fst (apply_all_os demo_hash (ORSet ''c'') concurrent_ops)) = Inr S
          \<and> py_in py_eq (JStr ''x'') S)"
proof -
  let ?a = "mk_op ''a1'' 1 ''A'' [] ''add'' (JStr ''x'')"
  let ?outs = "[Inr True, Inl TypeError, Inl TypeError, Inr True, Inr True]"
  obtain s calls where run: "apply_all_os demo_hash (ORSet ''c'') concurrent_ops = (s, calls)"
    by (cases "apply_all_os demo_hash (ORSet ''c'') concurrent_ops")
  have calls: "calls = zip concurrent_ops ?outs"
    and rem: "removed_tags s = [JStr ''b1'', JStr ''b0'']"
    using run by (auto simp: concurrent_ops_def os_eval)
  have h2: "(?a, Inr True) \<in> set calls"
    and h3: "op_type ?a = ''add''" and h4: "op_value ?a = JStr ''x''"
    by (simp_all add: calls concurrent_ops_def mk_op_def)
  have h5: "\<forall>(r, outcome) \<in> set calls. op_type r = ''remove'' \<and> outcome \<noteq> Inr False \<longrightarrow>
           (\<forall>tags. remove_tags (op_value r) = Inr tags \<longrightarrow> JStr (op_id ?a) \<notin> set tags)"
    by (auto simp: calls concurrent_ops_def mk_op_def)
  have h6: "\<forall>(b, outcome) \<in> set calls.
              op_type b = ''add'' \<and> outcome = Inr True
              \<and> demo_hash (op_value b) = demo_hash (JStr ''x'')
              \<longrightarrow> op_value b = JStr ''x''"
    by (simp add: calls concurrent_ops_def mk_op_def)
  have h7: "\<forall>xs :: (string \<times> jval) list. set (rev xs) = set xs"
    by simp
  from add_wins [OF run h2 h3 h4 h5 h6 h7] run calls rem show ?thesis
    by (simp add: concurrent_ops_def)
qed

text \<open>
  Without the condition on the hash the statement fails: two adds whose values
  fall into one bucket, both applied, and no remove. \<open>value()\<close> takes one value from
  the bucket and stops, so one of the two added values is missing, whichever way
  the bucket is iterated.
\<close>

theorem colliding_adds_counterexample:
  "map snd (snd (apply_all_os colliding_hash (ORSet ''c'') colliding_ops)) = [Inr True, Inr True]
   \<and> removed_tags (fst (apply_all_os colliding_hash (ORSet ''c'') colliding_ops)) = []
   \<and> value_os (\<lambda>b. b) (fst (apply_all_os colliding_hash (ORSet ''c'') colliding_ops))
       = Inr [JStr ''xa'']
   \<and> \<not> py_in py_eq (JStr ''xb'') [JStr ''xa'']
   \<and> value_os rev (fst (apply_all_os colliding_hash (ORSet ''c'') colliding_ops))
       = Inr [JStr ''xb'']
   \<and> \<not> py_in py_eq (JStr ''xa'') [JStr ''xb'']"
  by (simp add: colliding_ops_def os_eval)
end
